theory Spec2Isabelle
  imports Main
begin

section \<open>JavaScript values read by the text controller\<close>

text \<open>
  Request bodies and store results are JSON data; \<open>JUndefined\<close> is the value of a
  missing property. Numbers are the integers (JSON numbers with a fraction are outside
  the model). Objects are association lists, read with \<open>map_of\<close>.
\<close>

datatype jsval =
    JUndefined
  | JNull
  | JBool bool
  | JNum int
  | JStr string
  | JArr "jsval list"
  | JObj "(string \<times> jsval) list"

datatype js_error = TypeError

text \<open>The value of \<open>if (v)\<close>.\<close>

fun truthy :: "jsval \<Rightarrow> bool" where
  "truthy JUndefined = False"
| "truthy JNull = False"
| "truthy (JBool b) = b"
| "truthy (JNum n) = (n \<noteq> 0)"
| "truthy (JStr s) = (s \<noteq> [])"
| "truthy (JArr xs) = True"
| "truthy (JObj kvs) = True"

text \<open>
  Property read \<open>v.k\<close>, for the data properties the controller reads (\<open>id\<close>, \<open>op\<close>,
  \<open>path\<close>, \<open>value\<close>, \<open>metadata\<close>, \<open>classes\<close>, \<open>operation\<close>, \<open>length\<close>): it raises a
  TypeError on \<open>undefined\<close> and \<open>null\<close>, gives \<open>undefined\<close> on a missing property, and
  strings and arrays have a \<open>length\<close>.
\<close>

fun getprop :: "jsval \<Rightarrow> string \<Rightarrow> js_error + jsval" where
  "getprop JUndefined k = Inl TypeError"
| "getprop JNull k = Inl TypeError"
| "getprop (JObj kvs) k = Inr (case map_of kvs k of None \<Rightarrow> JUndefined | Some x \<Rightarrow> x)"
| "getprop (JArr xs) k = Inr (if k = ''length'' then JNum (int (length xs)) else JUndefined)"
| "getprop (JStr s) k = Inr (if k = ''length'' then JNum (int (length s)) else JUndefined)"
| "getprop (JBool b) k = Inr JUndefined"
| "getprop (JNum n) k = Inr JUndefined"

text \<open>Property read on a value already known not to be \<open>undefined\<close> or \<open>null\<close>.\<close>

definition field :: "jsval \<Rightarrow> string \<Rightarrow> jsval" where
  "field v k = (case getprop v k of Inl e \<Rightarrow> JUndefined | Inr x \<Rightarrow> x)"

text \<open>
  lodash's \<open>_.has(object, path)\<close> for a dotted path of the own keys \<open>operation\<close>,
  \<open>value\<close> and \<open>metadata\<close>: every step must be an own property of an object.
\<close>

fun has :: "jsval \<Rightarrow> string list \<Rightarrow> bool" where
  "has v [] = True"
| "has (JObj kvs) (k # ks) = (case map_of kvs k of None \<Rightarrow> False | Some x \<Rightarrow> has x ks)"
| "has v (k # ks) = False"

text \<open>
  String conversion, as done by \<open>name += operation.op\<close>.

  A number below 2^53 in magnitude is printed with its decimal digits. For any other
  number the digits, or the exponent form such as \<open>1e+21\<close>, are those that the
  JavaScript engine's own conversion gives: it is the argument \<open>num\<close>.

  An object is converted by its \<open>toString\<close>. A JSON object inherits the one that
  prints \<open>[object Object]\<close>, unless it has an own property \<open>toString\<close>: that property
  is data and cannot be called, \<open>valueOf\<close> gives back the object, and the conversion
  raises a TypeError. An array is converted by joining the conversions of its elements
  with commas, \<open>null\<close> and \<open>undefined\<close> counting as the empty string; the first
  element that raises makes the whole conversion raise.
\<close>

function decimal :: "nat \<Rightarrow> string" where
  "decimal n =
     (if 10 \<le> n then decimal (n div 10) @ [''0123456789'' ! (n mod 10)]
      else [''0123456789'' ! n])"
  by pat_completeness auto
termination
  by (relation "measure (\<lambda>n. n)") auto

definition number_to_string :: "int \<Rightarrow> string" where
  "number_to_string n = (if 0 \<le> n then decimal (nat n) else CHR ''-'' # decimal (nat (- n)))"

fun join :: "string list \<Rightarrow> string" where
  "join [] = []"
| "join [s] = s"
| "join (s # t # ss) = s @ '','' @ join (t # ss)"

fun collect :: "(js_error + string) list \<Rightarrow> js_error + string list" where
  "collect [] = Inr []"
| "collect (Inl e # rs) = Inl e"
| "collect (Inr x # rs) = (case collect rs of Inl e \<Rightarrow> Inl e | Inr xs \<Rightarrow> Inr (x # xs))"

fun to_string :: "(int \<Rightarrow> string) \<Rightarrow> jsval \<Rightarrow> js_error + string" where
  "to_string num JUndefined = Inr ''undefined''"
| "to_string num JNull = Inr ''null''"
| "to_string num (JBool b) = Inr (if b then ''true'' else ''false'')"
| "to_string num (JNum n) =
     Inr (if - 9007199254740992 < n \<and> n < 9007199254740992 then number_to_string n else num n)"
| "to_string num (JStr s) = Inr s"
| "to_string num (JArr xs) =
     (case collect (map (\<lambda>x. if x = JUndefined \<or> x = JNull then Inr [] else to_string num x) xs) of
        Inl e \<Rightarrow> Inl e
      | Inr ss \<Rightarrow> Inr (join ss))"
| "to_string num (JObj kvs) =
     (case map_of kvs ''toString'' of
        None \<Rightarrow> Inr ''[object Object]''
      | Some f \<Rightarrow> Inl TypeError)"

section \<open>Errors and outcomes\<close>

text \<open>
  The module \<open>dberrors\<close> is not part of the controller: \<open>invalid msg\<close> stands for the
  error object that \<open>dberrors.invalid(msg)\<close> builds, \<open>DatabaseError\<close> (category, message,
  code) for any other error the store reports.
\<close>

datatype dberror =
    invalid string
  | DatabaseError string string jsval

text \<open>
  An outcome of one patch operation: \<open>new PatchError(databaseError, operation)\<close> keeps
  the root error's category, message and code and the operation; anything else is the
  result the store handed back.
\<close>

datatype outcome =
    PatchError dberror jsval
  | Result jsval

section \<open>Validation of one patch operation\<close>

definition sanitizeMetadata :: "jsval \<Rightarrow> jsval" where
  "sanitizeMetadata v =
     (if truthy v \<and> (truthy (field v ''value'') \<or> truthy (field v ''metadata''))
      then JObj [(''value'', field v ''value''), (''metadata'', field v ''metadata'')]
      else JNull)"

definition getIds :: "jsval \<Rightarrow> jsval" where
  "getIds cls =
     (if truthy cls \<and> (case field cls ''id'' of JStr s \<Rightarrow> True | _ \<Rightarrow> False)
      then field cls ''id'' else JUndefined)"

text \<open>\<open>values.map\<close> exists on arrays only; on any other JSON value the call raises.\<close>

definition getClassesToPatch :: "jsval \<Rightarrow> js_error + jsval list" where
  "getClassesToPatch values =
     (case values of
        JArr xs \<Rightarrow> Inr (filter truthy (map getIds xs))
      | _ \<Rightarrow> Inl TypeError)"

text \<open>The calls of the store module \<open>db\<close> that a patch can make.\<close>

datatype dbcall =
    addClassesToText string string "jsval list"
  | removeClassesFromText string string "jsval list"
  | updateTextMetadata string string jsval

text \<open>
  What a patch handler does with its callback: it calls it at once with an error, hands
  it to the store together with a call, or raises before doing either.
\<close>

datatype handled =
    Callback dberror
  | Store dbcall
  | Throws js_error

definition patchTextClasses :: "string \<Rightarrow> string \<Rightarrow> jsval \<Rightarrow> handled" where
  "patchTextClasses tenantid textid patchoperation =
     (case getprop patchoperation ''op'' of
        Inl e \<Rightarrow> Throws e
      | Inr op \<Rightarrow>
          if op = JStr ''add'' then
            (case getClassesToPatch (field patchoperation ''value'') of
               Inl e \<Rightarrow> Throws e
             | Inr tenantsToAdd \<Rightarrow>
                 if JNum (int (length tenantsToAdd)) \<noteq> field (field patchoperation ''value'') ''length''
                 then Callback (invalid ''Invalid value array'')
                 else Store (addClassesToText tenantid textid tenantsToAdd))
          else if op = JStr ''remove'' then
            (case getClassesToPatch (field patchoperation ''value'') of
               Inl e \<Rightarrow> Throws e
             | Inr tenantsToRemove \<Rightarrow>
                 if JNum (int (length tenantsToRemove)) \<noteq> field (field patchoperation ''value'') ''length''
                 then Callback (invalid ''Invalid value array'')
                 else Store (removeClassesFromText tenantid textid tenantsToRemove))
          else Callback (invalid ''Unsupported operation''))"

definition patchTextMetadata :: "string \<Rightarrow> string \<Rightarrow> jsval \<Rightarrow> handled" where
  "patchTextMetadata tenantid textid patchoperation =
     (case getprop patchoperation ''op'' of
        Inl e \<Rightarrow> Throws e
      | Inr op \<Rightarrow>
          if op = JStr ''replace'' then
            (let metadata = sanitizeMetadata (field patchoperation ''value'')
             in if \<not> truthy metadata then Callback (invalid ''Invalid value'')
                else Store (updateTextMetadata tenantid textid metadata))
          else Callback (invalid ''Unsupported operation''))"

section \<open>Event notification\<close>

text \<open>
  The name is built in two steps; the second, \<open>name += operation.op\<close>, converts \<open>op\<close>
  to a string and raises when the conversion does.
\<close>

definition socketMessageNameBuilder :: "(int \<Rightarrow> string) \<Rightarrow> jsval \<Rightarrow> js_error + string" where
  "socketMessageNameBuilder num operation =
     (let name =
        (case (if truthy operation then field operation ''path'' else JUndefined) of
           JStr (c # cs) \<Rightarrow> (if c = CHR ''/'' then cs else c # cs)
         | _ \<Rightarrow> ''unknown'')
        @ '':''
      in if truthy operation \<and> truthy (field operation ''op'')
         then (case to_string num (field operation ''op'') of
                 Inl e \<Rightarrow> Inl e
               | Inr v \<Rightarrow> Inr (name @ v))
         else Inr (name @ ''unknown''))"

text \<open>The payload object built for one outcome; an unset property is \<open>None\<close>.\<close>

record response =
  id' :: string
  error' :: "outcome option"
  value' :: "jsval option"
  classes' :: "jsval option"

definition socketResponseBuilder :: "string \<Rightarrow> outcome \<Rightarrow> js_error + response option" where
  "socketResponseBuilder textid data =
     (let response = \<lparr>id' = textid, error' = None, value' = None, classes' = None\<rparr> in
      case data of
        PatchError e operation \<Rightarrow>
          Inr (Some
            (if has operation [''value'', ''value'']
             then response\<lparr>error' := Some data,
                           value' := Some (field (field operation ''value'') ''value'')\<rparr>
             else if has operation [''value'']
             then response\<lparr>error' := Some data, classes' := Some (field operation ''value'')\<rparr>
             else response\<lparr>error' := Some data\<rparr>))
      | Result d \<Rightarrow>
          (case getprop d ''classes'' of
             Inl e \<Rightarrow> Inl e
           | Inr c \<Rightarrow>
               if truthy c \<and> truthy (field c ''length'')
               then Inr (Some (response\<lparr>classes' := Some c\<rparr>))
               else if has d [''metadata'', ''value'']
               then Inr (Some (response\<lparr>value' := Some (field (field d ''metadata'') ''value'')\<rparr>))
               else Inr None))"

text \<open>\<open>result.operation\<close>, read once the payload is known not to be null.\<close>

definition operation_of :: "outcome \<Rightarrow> jsval" where
  "operation_of data =
     (case data of PatchError e operation \<Rightarrow> operation | Result d \<Rightarrow> field d ''operation'')"

text \<open>
  The loop \<open>data.forEach\<close> of the completion callback: the events handed to
  \<open>socketUtil.send\<close>, in order, and the error that stopped the loop, if one did. For
  each outcome the payload is built first, then, when it is not null, the name.
\<close>

fun forEach ::
  "(int \<Rightarrow> string) \<Rightarrow> string \<Rightarrow> outcome list \<Rightarrow> (string \<times> response) list \<times> js_error option" where
  "forEach num textid [] = ([], None)"
| "forEach num textid (result # rest) =
     (case socketResponseBuilder textid result of
        Inl e \<Rightarrow> ([], Some e)
      | Inr None \<Rightarrow> forEach num textid rest
      | Inr (Some response) \<Rightarrow>
          (case socketMessageNameBuilder num (operation_of result) of
             Inl e \<Rightarrow> ([], Some e)
           | Inr name \<Rightarrow>
               (case forEach num textid rest of
                  (evs, x) \<Rightarrow> ((''text:update:'' @ name, response) # evs, x))))"

section \<open>The status record and the status store\<close>

datatype status = RUNNING | COMPLETE | ERROR

record details =
  status :: status
  success :: nat
  error :: nat

definition MINUTE :: nat where
  "MINUTE = 1000 * 60"

text \<open>
  What one call of \<open>editText\<close> is given: the request parameters, the identifier that
  \<open>uuid.v1()\<close> returned, the address of the object bound to \<open>details\<close>, and the
  engine's conversion of a number to a string (see \<open>to_string\<close>).
\<close>

record batch =
  tenantid :: string
  textid :: string
  patchid :: string
  detailsref :: nat
  numberToString :: "int \<Rightarrow> string"

text \<open>
  The state that the callbacks of one batch share. The status object lives in \<open>heap\<close>
  and the cache holds its address, not a copy: a later \<open>details.error++\<close> is seen by
  every reader of the cache. \<open>clock\<close> is the time in milliseconds of the running
  callback. The remaining fields are the bookkeeping of \<open>async.mapLimit\<close>
  (\<open>pending\<close>: operations not yet started, with their index; \<open>running\<close>: iterator
  calls whose callback has not been called; \<open>inflight\<close>: the callbacks the store holds;
  \<open>results\<close>: the result array, \<open>None\<close> for a hole; \<open>called\<close>: the completion callback
  has run), the events given to \<open>socketUtil.send\<close>, and the errors raised out of a
  callback.
\<close>

record state =
  heap :: "nat \<Rightarrow> details"
  cache :: "string \<Rightarrow> (nat \<times> nat) option"
  clock :: nat
  pending :: "(nat \<times> jsval) list"
  running :: nat
  errored :: bool
  inflight :: "(nat \<times> jsval \<times> dbcall) list"
  results :: "outcome option list"
  called :: bool
  sent :: "(string \<times> response) list"
  uncaught :: "js_error list"

text \<open>
  Modelled from the spec: the Status Store is the package \<open>memory-cache\<close>, which is not
  under src/. \<open>put\<close> inserts or overwrites and starts the expiry of the entry anew from
  the time of the call; \<open>get\<close> gives the record, or nothing when the key is absent or its
  time to live has elapsed.
\<close>

definition cache_put :: "string \<Rightarrow> nat \<Rightarrow> nat \<Rightarrow> state \<Rightarrow> state" where
  "cache_put key ref time s = s\<lparr>cache := (cache s)(key \<mapsto> (ref, clock s + time))\<rparr>"

definition cache_get :: "string \<Rightarrow> nat \<Rightarrow> state \<Rightarrow> details option" where
  "cache_get key now s =
     (case cache s key of
        None \<Rightarrow> None
      | Some (ref, expire) \<Rightarrow> if now < expire then Some (heap s ref) else None)"

text \<open>
  \<open>patchStatus\<close> at time \<open>now\<close>: the body of the 200 response, or \<open>None\<close> for
  \<open>responses.notfound\<close>.
\<close>

definition patchStatus :: "string \<Rightarrow> nat \<Rightarrow> state \<Rightarrow> details option" where
  "patchStatus patchid' now s = cache_get patchid' now s"

section \<open>Settling one operation\<close>

definition count_error :: "nat \<Rightarrow> state \<Rightarrow> state" where
  "count_error a s = s\<lparr>heap := (heap s)(a := (heap s a)\<lparr>error := error (heap s a) + 1\<rparr>)\<rparr>"

definition count_success :: "nat \<Rightarrow> state \<Rightarrow> state" where
  "count_success a s = s\<lparr>heap := (heap s)(a := (heap s a)\<lparr>success := success (heap s a) + 1\<rparr>)\<rparr>"

definition set_status :: "nat \<Rightarrow> status \<Rightarrow> state \<Rightarrow> state" where
  "set_status a st s = s\<lparr>heap := (heap s)(a := (heap s a)\<lparr>status := st\<rparr>)\<rparr>"

text \<open>
  \<open>handleResult(err, result)\<close>, the function that \<open>operationHandler\<close> returns: the new
  state and the two arguments it gives to \<open>callback\<close>.
\<close>

definition operationHandler ::
  "jsval \<Rightarrow> string \<Rightarrow> nat \<Rightarrow> dberror + jsval \<Rightarrow> state \<Rightarrow> (dberror option \<times> outcome) \<times> state" where
  "operationHandler patchoperation patchid' patchdetails r s =
     (case r of
        Inl err \<Rightarrow>
          ((None, PatchError err patchoperation),
           cache_put patchid' patchdetails (5 * MINUTE) (count_error patchdetails s))
      | Inr result \<Rightarrow>
          ((None, Result result),
           cache_put patchid' patchdetails (5 * MINUTE) (count_success patchdetails s)))"

text \<open>
  What \<open>applyPatch\<close> has done when it returns: called \<open>nextop\<close> with an error argument
  and an output, left the callback with the store, or raised.
\<close>

datatype applied =
    Next "dberror option" outcome
  | Wait dbcall
  | Raise js_error

text \<open>
  \<open>patchTextClasses(tenantid, textid, patchoperation, getCallback())\<close> and its sibling:
  the callback is \<open>handleResult\<close>, so an error that the handler reports at once is
  counted and wrapped before \<open>nextop\<close> is called.
\<close>

definition dispatch :: "batch \<Rightarrow> jsval \<Rightarrow> handled \<Rightarrow> state \<Rightarrow> applied \<times> state" where
  "dispatch b patchoperation h s =
     (case h of
        Callback err \<Rightarrow>
          (case operationHandler patchoperation (patchid b) (detailsref b) (Inl err) s of
             ((e, output), s') \<Rightarrow> (Next e output, s'))
      | Store c \<Rightarrow> (Wait c, s)
      | Throws e \<Rightarrow> (Raise e, s))"

definition applyPatch :: "batch \<Rightarrow> jsval \<Rightarrow> state \<Rightarrow> applied \<times> state" where
  "applyPatch b patchoperation s =
     (case getprop patchoperation ''path'' of
        Inl e \<Rightarrow> (Raise e, s)
      | Inr path \<Rightarrow>
          if path = JStr ''/classes'' then
            dispatch b patchoperation (patchTextClasses (tenantid b) (textid b) patchoperation) s
          else if path = JStr ''/metadata'' then
            dispatch b patchoperation (patchTextMetadata (tenantid b) (textid b) patchoperation) s
          else
            (Next None (PatchError (invalid ''Unsupported operation'') patchoperation),
             count_error (detailsref b) s))"

section \<open>The batch executor\<close>

text \<open>The elements of a result array that \<open>forEach\<close> visits: holes are skipped.\<close>

definition present :: "outcome option list \<Rightarrow> outcome list" where
  "present data = concat (map (\<lambda>r. case r of None \<Rightarrow> [] | Some x \<Rightarrow> [x]) data)"

definition handlePatchResponse :: "batch \<Rightarrow> dberror option \<Rightarrow> outcome option list \<Rightarrow> state \<Rightarrow> state" where
  "handlePatchResponse b err data s =
     (let s1 = set_status (detailsref b) (if err \<noteq> None then ERROR else COMPLETE) s;
          s2 = cache_put (patchid b) (detailsref b) (5 * MINUTE) s1
      in case forEach (numberToString b) (textid b) (present data) of
           (evs, x) \<Rightarrow>
             s2\<lparr>sent := sent s2 @ evs,
                uncaught := uncaught s2 @ (case x of None \<Rightarrow> [] | Some e \<Rightarrow> [e])\<rparr>)"

text \<open>
  Modelled from the spec: the Concurrency-Bounded Batch Executor is \<open>async.mapLimit\<close>,
  which is not under src/. It starts operations in submission order while fewer than
  the ceiling are in flight, keeps one result per operation at the operation's index,
  starts the next queued operation as soon as a slot frees, and calls the completion
  callback once: with the error as soon as an operation reports one, otherwise with
  all results when nothing is queued or in flight. An operation whose iterator raises
  keeps its slot, since its callback is never called.
\<close>

definition finish :: "batch \<Rightarrow> dberror option \<Rightarrow> state \<Rightarrow> state" where
  "finish b err s =
     (if called s then s else handlePatchResponse b err (results s) (s\<lparr>called := True\<rparr>))"

definition keep :: "nat \<Rightarrow> outcome \<Rightarrow> state \<Rightarrow> state" where
  "keep i output s = s\<lparr>results := (results s)[i := Some output], running := running s - 1\<rparr>"

fun replenish :: "batch \<Rightarrow> nat \<Rightarrow> (nat \<times> jsval) list \<Rightarrow> state \<Rightarrow> state" where
  "replenish b limit [] s =
     (if running s = 0 then finish b None (s\<lparr>pending := []\<rparr>) else s\<lparr>pending := []\<rparr>)"
| "replenish b limit ((i, patchoperation) # rest) s =
     (if running s < limit \<and> \<not> errored s then
        (case applyPatch b patchoperation (s\<lparr>pending := rest, running := running s + 1\<rparr>) of
           (Next err output, s') \<Rightarrow>
             if err \<noteq> None then finish b err ((keep i output s')\<lparr>errored := True\<rparr>)
             else replenish b limit rest (keep i output s')
         | (Wait c, s') \<Rightarrow>
             replenish b limit rest (s'\<lparr>inflight := inflight s' @ [(i, patchoperation, c)]\<rparr>)
         | (Raise e, s') \<Rightarrow> s'\<lparr>uncaught := uncaught s' @ [e]\<rparr>)
      else s\<lparr>pending := (i, patchoperation) # rest\<rparr>)"

definition mapLimit :: "batch \<Rightarrow> jsval list \<Rightarrow> nat \<Rightarrow> state \<Rightarrow> state" where
  "mapLimit b arr limit s =
     replenish b limit (zip [0 ..< length arr] arr)
       (s\<lparr>pending := zip [0 ..< length arr] arr, running := 0, errored := False,
          inflight := [], results := replicate (length arr) None, called := False\<rparr>)"

text \<open>
  \<open>editText\<close> up to its return, at time \<open>now\<close>, on the operations that
  \<open>requests.verifyObjectsList(makeArray(req.body))\<close> gave, with the heap \<open>h\<close> and the
  cache \<open>c\<close> as they are at that time. The events and the errors recorded are those of
  this batch.
\<close>

definition editText ::
  "batch \<Rightarrow> jsval list \<Rightarrow> nat \<Rightarrow> (nat \<Rightarrow> details) \<Rightarrow> (string \<Rightarrow> (nat \<times> nat) option) \<Rightarrow> state" where
  "editText b patchoperations now h c =
     mapLimit b patchoperations 10
       (cache_put (patchid b) (detailsref b) (5 * MINUTE)
          \<lparr>heap = h(detailsref b := \<lparr>status = RUNNING, success = 0, error = 0\<rparr>),
           cache = c, clock = now, pending = [], running = 0, errored = False,
           inflight = [], results = [], called = False, sent = [], uncaught = []\<rparr>)"

text \<open>
  The store answers the call of operation \<open>i\<close> in a later callback, \<open>dt\<close> milliseconds
  after the last one, with an error or a result: \<open>handleResult\<close> runs, then the executor
  keeps the output and goes on with the queue, under the ceiling 10 that \<open>editText\<close>
  gave it. An answer to a call that the store does not hold changes nothing.
\<close>

datatype reply = Reply nat "dberror + jsval" nat

fun storeReply :: "batch \<Rightarrow> state \<Rightarrow> reply \<Rightarrow> state" where
  "storeReply b s (Reply i r dt) =
     (case map_of (inflight s) i of
        None \<Rightarrow> s
      | Some (patchoperation, c) \<Rightarrow>
          (case operationHandler patchoperation (patchid b) (detailsref b) r
                  (s\<lparr>clock := clock s + dt, inflight := filter (\<lambda>e. fst e \<noteq> i) (inflight s)\<rparr>) of
             ((err, output), s') \<Rightarrow>
               if err \<noteq> None then finish b err ((keep i output s')\<lparr>errored := True\<rparr>)
               else replenish b 10 (pending s') (keep i output s')))"

definition run :: "batch \<Rightarrow> state \<Rightarrow> reply list \<Rightarrow> state" where
  "run b s replies = foldl (storeReply b) s replies"

section \<open>Invariants of a running batch\<close>

text \<open>The output that \<open>handleResult\<close> builds from the store's answer.\<close>

definition settle :: "jsval \<Rightarrow> dberror + jsval \<Rightarrow> outcome" where
  "settle patchoperation r = (case r of Inl err \<Rightarrow> PatchError err patchoperation | Inr result \<Rightarrow> Result result)"

text \<open>
  What \<open>applyPatch\<close> decides for one operation. It does not depend on the state
  (lemma \<open>applyPatch_fst\<close>).
\<close>

definition verdict :: "batch \<Rightarrow> jsval \<Rightarrow> applied" where
  "verdict b x =
     (case getprop x ''path'' of
        Inl e \<Rightarrow> Raise e
      | Inr path \<Rightarrow>
          (case (if path = JStr ''/classes'' then Some (patchTextClasses (tenantid b) (textid b) x)
                 else if path = JStr ''/metadata'' then Some (patchTextMetadata (tenantid b) (textid b) x)
                 else None) of
             None \<Rightarrow> Next None (PatchError (invalid ''Unsupported operation'') x)
           | Some (Callback err) \<Rightarrow> Next None (PatchError err x)
           | Some (Store c) \<Rightarrow> Wait c
           | Some (Throws e) \<Rightarrow> Raise e))"

text \<open>
  The counters, the executor's bookkeeping and the cache entry agree, between any two
  callbacks and inside the admission loop.
\<close>

definition counted :: "batch \<Rightarrow> nat \<Rightarrow> state \<Rightarrow> bool" where
  "counted b n s \<longleftrightarrow>
     running s \<le> 10 \<and> length (inflight s) \<le> running s \<and>
     success (heap s (detailsref b)) + error (heap s (detailsref b)) + running s + length (pending s) = n \<and>
     \<not> errored s \<and>
     status (heap s (detailsref b)) = (if called s then COMPLETE else RUNNING) \<and>
     (called s \<longrightarrow> pending s = [] \<and> running s = 0) \<and>
     (uncaught s = [] \<longrightarrow> running s = length (inflight s)) \<and>
     cache s (patchid b) = Some (detailsref b, clock s + 5 * MINUTE)"

text \<open>
  Where operation \<open>i\<close> stands once \<open>k\<close> operations have been started: not started,
  settled at once, in the store's hands, answered by the store, or raised.
\<close>

definition slot :: "batch \<Rightarrow> jsval list \<Rightarrow> nat \<Rightarrow> state \<Rightarrow> nat \<Rightarrow> bool" where
  "slot b ops k s i \<longleftrightarrow>
     (if k \<le> i then results s ! i = None \<and> i \<notin> fst ` set (inflight s)
      else case verdict b (ops ! i) of
             Next e out \<Rightarrow> results s ! i = Some out \<and> i \<notin> fst ` set (inflight s)
           | Wait c \<Rightarrow>
               (results s ! i = None \<and> i \<in> fst ` set (inflight s)) \<or>
               ((\<exists>r. results s ! i = Some (settle (ops ! i) r)) \<and> i \<notin> fst ` set (inflight s))
           | Raise e \<Rightarrow> results s ! i = None \<and> i \<notin> fst ` set (inflight s))"

definition tracked :: "batch \<Rightarrow> jsval list \<Rightarrow> nat \<Rightarrow> state \<Rightarrow> bool" where
  "tracked b ops k s \<longleftrightarrow>
     k \<le> length ops \<and>
     pending s = drop k (zip [0 ..< length ops] ops) \<and>
     length (results s) = length ops \<and>
     distinct (map fst (inflight s)) \<and>
     (\<forall>i x c. (i, x, c) \<in> set (inflight s) \<longrightarrow> i < k \<and> x = ops ! i \<and> verdict b x = Wait c) \<and>
     (\<forall>i < length ops. slot b ops k s i)"

definition succeeded :: "outcome option \<Rightarrow> bool" where
  "succeeded r = (case r of Some (Result v) \<Rightarrow> True | _ \<Rightarrow> False)"

definition failed :: "outcome option \<Rightarrow> bool" where
  "failed r = (case r of Some (PatchError e x) \<Rightarrow> True | _ \<Rightarrow> False)"

definition tallied :: "batch \<Rightarrow> state \<Rightarrow> bool" where
  "tallied b s \<longleftrightarrow>
     success (heap s (detailsref b)) = length (filter succeeded (results s)) \<and>
     error (heap s (detailsref b)) = length (filter failed (results s))"

text \<open>What holds in addition whenever a callback has returned.\<close>

definition saturated :: "state \<Rightarrow> bool" where
  "saturated s \<longleftrightarrow>
     (pending s = [] \<and> running s = 0 \<longrightarrow> called s) \<and>
     (uncaught s = [] \<longrightarrow> pending s = [] \<or> running s = 10)"

definition invariant :: "batch \<Rightarrow> jsval list \<Rightarrow> state \<Rightarrow> bool" where
  "invariant b ops s \<longleftrightarrow>
     counted b (length ops) s \<and> (\<exists>k. tracked b ops k s) \<and> tallied b s \<and> saturated s"

text \<open>
  The events of a batch are published by its completion callback, from the results as
  they are then, and not before; an error that stops the loop is recorded.
\<close>

definition announced :: "batch \<Rightarrow> state \<Rightarrow> bool" where
  "announced b s \<longleftrightarrow>
     sent s = (if called s then fst (forEach (numberToString b) (textid b) (present (results s))) else [])
     \<and> (called s \<and> uncaught s = [] \<longrightarrow>
          snd (forEach (numberToString b) (textid b) (present (results s))) = None)"

text \<open>
  No operation of the batch makes \<open>applyPatch\<close> raise; and the number of operations
  counted so far.
\<close>

definition never_raises :: "batch \<Rightarrow> jsval list \<Rightarrow> bool" where
  "never_raises b ops \<longleftrightarrow> \<not> (\<exists>x e. x \<in> set ops \<and> verdict b x = Raise e)"

definition counter_sum :: "batch \<Rightarrow> state \<Rightarrow> nat" where
  "counter_sum b s = success (heap s (detailsref b)) + error (heap s (detailsref b))"

section \<open>A concrete batch\<close>

definition example_batch :: batch where
  "example_batch =
     \<lparr>tenantid = ''tenant'', textid = ''text1'', patchid = ''patch1'', detailsref = 0,
      numberToString = number_to_string\<rparr>"

definition example_operations :: "jsval list" where
  "example_operations =
     [JObj [(''op'', JStr ''add''), (''path'', JStr ''/classes''),
            (''value'', JArr [JObj [(''id'', JStr ''c1'')], JObj [(''id'', JStr ''c2'')]])],
      JObj [(''op'', JStr ''replace''), (''path'', JStr ''/metadata''),
            (''value'', JObj [(''value'', JStr ''x''), (''metadata'', JObj [])])],
      JObj [(''op'', JStr ''bogus''), (''path'', JStr ''/nope'')]]"

definition blank_heap :: "nat \<Rightarrow> details" where
  "blank_heap a = \<lparr>status = RUNNING, success = 0, error = 0\<rparr>"

definition empty_cache :: "string \<Rightarrow> (nat \<times> nat) option" where
  "empty_cache key = None"

definition example_replies :: "reply list" where
  "example_replies =
     [Reply 1 (Inr (JObj [(''metadata'', JObj [(''value'', JStr ''x'')])])) 5,
      Reply 0 (Inr (JObj [(''classes'', JArr [JStr ''c1'', JStr ''c2''])])) 7]"

definition example_final :: state where
  "example_final =
     run example_batch (editText example_batch example_operations 1000 blank_heap empty_cache)
       example_replies"

definition crowded_operations :: "jsval list" where
  "crowded_operations =
     replicate 11 (JObj [(''op'', JStr ''add''), (''path'', JStr ''/classes''),
                         (''value'', JArr [JObj [(''id'', JStr ''c1'')]])])"

text \<open>
  The event name in words: the aspect is the path of the operation without one leading
  slash, or "unknown" when the path is missing, empty or not a string; the verb is the
  \<open>op\<close> of the operation converted to a string, or "unknown" when \<open>op\<close> is absent or
  falsy.
\<close>

definition aspect_of :: "jsval \<Rightarrow> string" where
  "aspect_of operation =
     (case field operation ''path'' of
        JStr (c # cs) \<Rightarrow> (if c = CHR ''/'' then cs else c # cs)
      | _ \<Rightarrow> ''unknown'')"

definition verb_of :: "(int \<Rightarrow> string) \<Rightarrow> jsval \<Rightarrow> js_error + string" where
  "verb_of num operation =
     (if truthy (field operation ''op'') then to_string num (field operation ''op'')
      else Inr ''unknown'')"

text \<open>
  The event of one outcome, when neither its payload nor its name raises: none when the
  payload is null.
\<close>

definition event_of :: "(int \<Rightarrow> string) \<Rightarrow> string \<Rightarrow> outcome \<Rightarrow> (string \<times> response) list" where
  "event_of num textid' out =
     (case socketResponseBuilder textid' out of
        Inr (Some r) \<Rightarrow>
          (case verb_of num (operation_of out) of
             Inr v \<Rightarrow> [(''text:update:'' @ aspect_of (operation_of out) @ '':'' @ v, r)]
           | Inl e \<Rightarrow> [])
      | _ \<Rightarrow> [])"

section \<open>Lemmas\<close>

lemmas state_defs = cache_put_def count_error_def count_success_def set_status_def keep_def

lemma operationHandler_fst: "fst (operationHandler x p a r s) = (None, settle x r)"
  by (simp add: operationHandler_def settle_def split: sum.splits)

lemma operationHandler_snd:
  "snd (operationHandler x p a r s) =
     cache_put p a (5 * MINUTE) (case r of Inl e \<Rightarrow> count_error a s | Inr v \<Rightarrow> count_success a s)"
  by (simp add: operationHandler_def split: sum.splits)

lemma applyPatch_fst: "fst (applyPatch b x s) = verdict b x"
  by (simp add: applyPatch_def verdict_def dispatch_def operationHandler_def split: sum.splits handled.splits)

lemma applyPatch_snd_Wait: "verdict b x = Wait c \<Longrightarrow> snd (applyPatch b x s) = s"
  by (auto simp add: applyPatch_def verdict_def dispatch_def operationHandler_def split: sum.splits handled.splits if_splits)

lemma applyPatch_snd_Raise: "verdict b x = Raise e \<Longrightarrow> snd (applyPatch b x s) = s"
  by (auto simp add: applyPatch_def verdict_def dispatch_def operationHandler_def split: sum.splits handled.splits if_splits)

lemma applyPatch_snd_Next:
  "verdict b x = Next e out \<Longrightarrow>
     snd (applyPatch b x s) = count_error (detailsref b) s \<or>
     snd (applyPatch b x s) = cache_put (patchid b) (detailsref b) (5 * MINUTE) (count_error (detailsref b) s)"
  by (auto simp add: applyPatch_def verdict_def dispatch_def operationHandler_def split: sum.splits handled.splits if_splits)

lemma verdict_Next: "verdict b x = Next e out \<Longrightarrow> e = None \<and> (\<exists>err. out = PatchError err x)"
  by (auto simp add: verdict_def split: sum.splits handled.splits if_splits option.splits)

lemma replenish_Next:
  assumes "running s < limit" "\<not> errored s" "verdict b x = Next e out"
  shows "replenish b limit ((i, x) # rest) s =
         replenish b limit rest
           (keep i out (snd (applyPatch b x (s\<lparr>pending := rest, running := running s + 1\<rparr>))))"
proof -
  have "e = None" using assms(3) verdict_Next by blast
  then show ?thesis
    using assms applyPatch_fst[of b x "s\<lparr>pending := rest, running := running s + 1\<rparr>"]
    by (cases "applyPatch b x (s\<lparr>pending := rest, running := running s + 1\<rparr>)") auto
qed

lemma replenish_Wait:
  assumes "running s < limit" "\<not> errored s" "verdict b x = Wait c"
  shows "replenish b limit ((i, x) # rest) s =
         replenish b limit rest
           (s\<lparr>pending := rest, running := running s + 1, inflight := inflight s @ [(i, x, c)]\<rparr>)"
  using assms applyPatch_fst[of b x "s\<lparr>pending := rest, running := running s + 1\<rparr>"]
    applyPatch_snd_Wait[OF assms(3), of "s\<lparr>pending := rest, running := running s + 1\<rparr>"]
  by (cases "applyPatch b x (s\<lparr>pending := rest, running := running s + 1\<rparr>)") auto

lemma replenish_Raise:
  assumes "running s < limit" "\<not> errored s" "verdict b x = Raise e"
  shows "replenish b limit ((i, x) # rest) s =
         s\<lparr>pending := rest, running := running s + 1, uncaught := uncaught s @ [e]\<rparr>"
  using assms applyPatch_fst[of b x "s\<lparr>pending := rest, running := running s + 1\<rparr>"]
    applyPatch_snd_Raise[OF assms(3), of "s\<lparr>pending := rest, running := running s + 1\<rparr>"]
  by (cases "applyPatch b x (s\<lparr>pending := rest, running := running s + 1\<rparr>)") auto

lemma replenish_stop:
  assumes "\<not> (running s < limit \<and> \<not> errored s)" "pending s = (i, x) # rest"
  shows "replenish b limit ((i, x) # rest) s = s"
proof -
  have "s\<lparr>pending := (i, x) # rest\<rparr> = s" using assms(2) by simp
  then show ?thesis using assms(1) by auto
qed

lemma replenish_Nil:
  assumes "pending s = []"
  shows "replenish b limit [] s = (if running s = 0 then finish b None s else s)"
proof -
  have "s\<lparr>pending := []\<rparr> = s" using assms by simp
  then show ?thesis by simp
qed

declare replenish.simps [simp del]

lemma finish_counted:
  assumes "counted b n s" "pending s = []" "running s = 0"
  shows "counted b n (finish b None s)"
  using assms
  by (auto simp: counted_def finish_def handlePatchResponse_def state_defs Let_def split: prod.splits)

lemma admit_Next_counted:
  assumes "counted b n s" "pending s = (i, x) # rest" "running s < 10"
    and "s' = count_error (detailsref b) (s\<lparr>pending := rest, running := running s + 1\<rparr>) \<or>
         s' = cache_put (patchid b) (detailsref b) (5 * MINUTE)
                (count_error (detailsref b) (s\<lparr>pending := rest, running := running s + 1\<rparr>))"
  shows "counted b n (keep i out s')" and "pending (keep i out s') = rest"
  using assms by (auto simp: counted_def state_defs)

lemma admit_Wait_counted:
  assumes "counted b n s" "pending s = (i, x) # rest" "running s < 10"
  shows "counted b n (s\<lparr>pending := rest, running := running s + 1, inflight := inflight s @ [(i, x, c)]\<rparr>)"
  using assms by (auto simp: counted_def)

lemma admit_Raise_counted:
  assumes "counted b n s" "pending s = (i, x) # rest" "running s < 10"
  shows "counted b n (s\<lparr>pending := rest, running := running s + 1, uncaught := uncaught s @ [e]\<rparr>)"
  using assms by (auto simp: counted_def)

lemma finish_called: "called (finish b err s)"
  by (auto simp: finish_def handlePatchResponse_def state_defs Let_def split: prod.splits)

lemma finish_pending: "pending (finish b err s) = pending s"
  by (auto simp: finish_def handlePatchResponse_def state_defs Let_def split: prod.splits)

lemma replenish_counted:
  "counted b n s \<Longrightarrow> pending s = ps \<Longrightarrow>
   counted b n (replenish b 10 ps s) \<and> saturated (replenish b 10 ps s)"
proof (induction ps arbitrary: s)
  case Nil
  have "saturated (finish b None s)" using Nil(2) by (simp add: saturated_def finish_called finish_pending)
  moreover have "running s \<noteq> 0 \<Longrightarrow> saturated s" using Nil(2) by (simp add: saturated_def)
  ultimately show ?case using Nil finish_counted[of b n s] by (simp add: replenish_Nil)
next
  case (Cons p rest)
  obtain i x where p: "p = (i, x)" by (cases p)
  have ne: "\<not> errored s" using Cons.prems(1) by (simp add: counted_def)
  have pend: "pending s = (i, x) # rest" using Cons.prems(2) p by simp
  show ?case
  proof (cases "running s < 10")
    case False
    then have "running s = 10" using Cons.prems(1) by (simp add: counted_def)
    then have "saturated s" by (simp add: saturated_def)
    then show ?thesis using False Cons.prems(1) replenish_stop[OF _ pend, of 10 b] by (simp add: p)
  next
    case True
    let ?s1 = "s\<lparr>pending := rest, running := running s + 1\<rparr>"
    show ?thesis
    proof (cases "verdict b x")
      case (Next e out)
      from applyPatch_snd_Next[OF Next, of ?s1]
      have c: "counted b n (keep i out (snd (applyPatch b x ?s1)))"
        and q: "pending (keep i out (snd (applyPatch b x ?s1))) = rest"
        using admit_Next_counted[OF Cons.prems(1) pend True] by blast+
      show ?thesis unfolding p replenish_Next[OF True ne Next] by (rule Cons.IH[OF c q])
    next
      case (Wait c)
      let ?s2 = "s\<lparr>pending := rest, running := running s + 1, inflight := inflight s @ [(i, x, c)]\<rparr>"
      have "counted b n ?s2" by (rule admit_Wait_counted[OF Cons.prems(1) pend True])
      moreover have "pending ?s2 = rest" by simp
      ultimately show ?thesis unfolding p replenish_Wait[OF True ne Wait] by (rule Cons.IH)
    next
      case (Raise e)
      let ?s2 = "s\<lparr>pending := rest, running := running s + 1, uncaught := uncaught s @ [e]\<rparr>"
      have "saturated ?s2" by (simp add: saturated_def)
      then show ?thesis unfolding p replenish_Raise[OF True ne Raise]
        using admit_Raise_counted[OF Cons.prems(1) pend True] by simp
    qed
  qed
qed

lemma applyPatch_frame:
  "pending (snd (applyPatch b x s)) = pending s"
  "running (snd (applyPatch b x s)) = running s"
  "errored (snd (applyPatch b x s)) = errored s"
  "inflight (snd (applyPatch b x s)) = inflight s"
  "results (snd (applyPatch b x s)) = results s"
  "called (snd (applyPatch b x s)) = called s"
  "sent (snd (applyPatch b x s)) = sent s"
  "uncaught (snd (applyPatch b x s)) = uncaught s"
  "clock (snd (applyPatch b x s)) = clock s"
  by (cases "verdict b x";
      use applyPatch_snd_Next[of b x _ _ s] applyPatch_snd_Wait[of b x _ s] applyPatch_snd_Raise[of b x _ s]
      in \<open>auto simp: state_defs\<close>)+

lemma applyPatch_heap_Next:
  assumes "verdict b x = Next e out"
  shows "heap (snd (applyPatch b x s)) =
         (heap s)(detailsref b := (heap s (detailsref b))\<lparr>error := error (heap s (detailsref b)) + 1\<rparr>)"
  using applyPatch_snd_Next[OF assms, of s] by (auto simp: state_defs)

lemma drop_zip_Cons:
  assumes "drop k (zip [0 ..< length ops] ops) = (i, x) # rest"
  shows "k < length ops \<and> i = k \<and> x = ops ! k \<and> rest = drop (Suc k) (zip [0 ..< length ops] ops)"
proof -
  let ?z = "zip [0 ..< length ops] ops"
  have k: "k < length ?z" using assms by (cases "k < length ?z") auto
  then have kl: "k < length ops" by simp
  from Cons_nth_drop_Suc[OF k] assms have "?z ! k # drop (Suc k) ?z = (i, x) # rest"
    by (simp only:)
  then have "?z ! k = (i, x)" and r: "drop (Suc k) ?z = rest" by blast+
  moreover have "?z ! k = (k, ops ! k)" using kl by simp
  ultimately have "i = k" "x = ops ! k" by auto
  then show ?thesis using kl r by blast
qed

lemma filter_update_None:
  assumes "i < length rs" "rs ! i = None" "\<not> P None"
  shows "length (filter P (rs[i := y])) = length (filter P rs) + (if P y then 1 else 0)"
  using assms
proof (induction rs arbitrary: i)
  case Nil
  then show ?case by simp
next
  case (Cons r rs)
  then show ?case by (cases i) auto
qed

lemma tracked_head:
  assumes "tracked b ops k s" "pending s = (i, x) # rest"
  shows "k < length ops \<and> i = k \<and> x = ops ! k \<and> rest = drop (Suc k) (zip [0 ..< length ops] ops)"
  using assms drop_zip_Cons[of k ops i x rest] by (simp add: tracked_def)

lemma slot_other:
  assumes "slot b ops k s j" "j \<noteq> k" "results s' ! j = results s ! j"
    and "j \<in> fst ` set (inflight s') \<longleftrightarrow> j \<in> fst ` set (inflight s)"
  shows "slot b ops (Suc k) s' j"
proof (cases "k \<le> j")
  case True
  then have "Suc k \<le> j" using assms(2) by simp
  then show ?thesis using assms True by (simp add: slot_def)
next
  case False
  then have "\<not> Suc k \<le> j" by simp
  then show ?thesis using assms False by (simp add: slot_def cong: applied.case_cong)
qed

lemma slot_same:
  assumes "slot b ops k s j" "results s' ! j = results s ! j"
    and "j \<in> fst ` set (inflight s') \<longleftrightarrow> j \<in> fst ` set (inflight s)"
  shows "slot b ops k s' j"
  using assms by (simp add: slot_def cong: applied.case_cong)

lemma admit_Next_tracked:
  assumes t: "tracked b ops k s" and p: "pending s = (i, x) # rest"
    and v: "verdict b x = Next e out"
    and fr: "pending s' = rest" "results s' = results s" "inflight s' = inflight s"
  shows "tracked b ops (Suc k) (keep i out s')"
proof -
  from tracked_head[OF t p] have h: "k < length ops" "i = k" "x = ops ! k"
    "rest = drop (Suc k) (zip [0 ..< length ops] ops)" by auto
  have sl: "\<forall>j < length ops. slot b ops k s j" and len: "length (results s) = length ops"
    using t by (auto simp: tracked_def)
  have "slot b ops (Suc k) (keep i out s') j" if j: "j < length ops" for j
  proof (cases "j = k")
    case True
    have "k \<notin> fst ` set (inflight s)" using sl h(1) by (auto simp: slot_def)
    with True show ?thesis using v h len by (simp add: slot_def keep_def fr)
  next
    case False
    have "slot b ops k s j" using sl j by simp
    then show ?thesis using False by (rule slot_other) (use False h in \<open>simp_all add: keep_def fr\<close>)
  qed
  then show ?thesis using t h by (auto simp: tracked_def keep_def fr intro: less_SucI)
qed

lemma admit_Wait_tracked:
  assumes t: "tracked b ops k s" and p: "pending s = (i, x) # rest"
    and v: "verdict b x = Wait c"
  shows "tracked b ops (Suc k)
           (s\<lparr>pending := rest, running := running s + 1, inflight := inflight s @ [(i, x, c)]\<rparr>)"
proof -
  let ?s' = "s\<lparr>pending := rest, running := running s + 1, inflight := inflight s @ [(i, x, c)]\<rparr>"
  from tracked_head[OF t p] have h: "k < length ops" "i = k" "x = ops ! k"
    "rest = drop (Suc k) (zip [0 ..< length ops] ops)" by auto
  have sl: "\<forall>j < length ops. slot b ops k s j" and len: "length (results s) = length ops"
    using t by (auto simp: tracked_def)
  have nk: "k \<notin> fst ` set (inflight s)" and rk: "results s ! k = None"
    using sl h(1) by (auto simp: slot_def)
  have "slot b ops (Suc k) ?s' j" if j: "j < length ops" for j
  proof (cases "j = k")
    case True
    then show ?thesis using v h rk by (simp add: slot_def)
  next
    case False
    have "slot b ops k s j" using sl j by simp
    then show ?thesis using False by (rule slot_other) (use False h in auto)
  qed
  moreover have "distinct (map fst (inflight ?s'))" using t nk h by (auto simp: tracked_def)
  ultimately show ?thesis using t h v by (auto simp: tracked_def intro: less_SucI)
qed

lemma admit_Raise_tracked:
  assumes t: "tracked b ops k s" and p: "pending s = (i, x) # rest"
    and v: "verdict b x = Raise e"
  shows "tracked b ops (Suc k)
           (s\<lparr>pending := rest, running := running s + 1, uncaught := uncaught s @ [e]\<rparr>)"
proof -
  let ?s' = "s\<lparr>pending := rest, running := running s + 1, uncaught := uncaught s @ [e]\<rparr>"
  from tracked_head[OF t p] have h: "k < length ops" "i = k" "x = ops ! k"
    "rest = drop (Suc k) (zip [0 ..< length ops] ops)" by auto
  have sl: "\<forall>j < length ops. slot b ops k s j"
    using t by (auto simp: tracked_def)
  have "slot b ops (Suc k) ?s' j" if j: "j < length ops" for j
  proof (cases "j = k")
    case True
    then show ?thesis using v h sl by (auto simp: slot_def)
  next
    case False
    have "slot b ops k s j" using sl j by simp
    then show ?thesis using False by (rule slot_other) simp_all
  qed
  then show ?thesis using t h by (auto simp: tracked_def intro: less_SucI)
qed

lemma tracked_cong:
  "pending s' = pending s \<Longrightarrow> results s' = results s \<Longrightarrow> inflight s' = inflight s \<Longrightarrow>
   tracked b ops k s' = tracked b ops k s"
  by (simp add: tracked_def slot_def cong: applied.case_cong)

lemma finish_frame:
  "pending (finish b err s) = pending s"
  "running (finish b err s) = running s"
  "errored (finish b err s) = errored s"
  "inflight (finish b err s) = inflight s"
  "results (finish b err s) = results s"
  "clock (finish b err s) = clock s"
  by (auto simp: finish_def handlePatchResponse_def state_defs Let_def split: prod.splits)

lemma finish_tracked:
  "tracked b ops k s \<Longrightarrow> tracked b ops k (finish b err s)"
  using tracked_cong[of "finish b err s" s b ops k] by (simp add: finish_frame)

lemma tracked_free:
  assumes "tracked b ops k s" "k < length ops"
  shows "results s ! k = None" "k < length (results s)" "k \<notin> fst ` set (inflight s)"
  using assms by (auto simp: tracked_def slot_def)

lemma tallied_keep:
  assumes "tallied b s" "results s ! i = None" "i < length (results s)"
    and "results s' = results s"
    and "heap s' (detailsref b) =
           (case out of
              PatchError e x \<Rightarrow> (heap s (detailsref b))\<lparr>error := error (heap s (detailsref b)) + 1\<rparr>
            | Result v \<Rightarrow> (heap s (detailsref b))\<lparr>success := success (heap s (detailsref b)) + 1\<rparr>)"
  shows "tallied b (keep i out s')"
  using assms
  by (cases out) (simp_all add: tallied_def keep_def filter_update_None succeeded_def failed_def)

lemma tallied_cong:
  "results s' = results s \<Longrightarrow>
   success (heap s' (detailsref b)) = success (heap s (detailsref b)) \<Longrightarrow>
   error (heap s' (detailsref b)) = error (heap s (detailsref b)) \<Longrightarrow>
   tallied b s' = tallied b s"
  by (simp add: tallied_def)

lemma finish_counts:
  "success (heap (finish b err s) (detailsref b)) = success (heap s (detailsref b))"
  "error (heap (finish b err s) (detailsref b)) = error (heap s (detailsref b))"
  by (auto simp: finish_def handlePatchResponse_def state_defs Let_def split: prod.splits)

lemma finish_tallied: "tallied b s \<Longrightarrow> tallied b (finish b err s)"
  using tallied_cong[of "finish b err s" s b] by (simp add: finish_frame finish_counts)

lemma replenish_tracked:
  "tracked b ops k s \<Longrightarrow> tallied b s \<Longrightarrow> pending s = ps \<Longrightarrow>
   \<exists>k'. tracked b ops k' (replenish b limit ps s) \<and> tallied b (replenish b limit ps s)"
proof (induction ps arbitrary: s k)
  case Nil
  have "tracked b ops k (finish b None s)" "tallied b (finish b None s)"
    using Nil finish_tracked finish_tallied by blast+
  then show ?case using Nil by (auto simp: replenish_Nil)
next
  case (Cons p rest)
  obtain i x where p: "p = (i, x)" by (cases p)
  have pend: "pending s = (i, x) # rest" using Cons.prems(3) p by simp
  from tracked_head[OF Cons.prems(1) pend] have h: "k < length ops" "i = k" by auto
  show ?case
  proof (cases "running s < limit \<and> \<not> errored s")
    case False
    then show ?thesis using Cons.prems replenish_stop[OF False pend, of b] by (auto simp: p)
  next
    case True
    then have r: "running s < limit" and ne: "\<not> errored s" by auto
    let ?s1 = "s\<lparr>pending := rest, running := running s + 1\<rparr>"
    show ?thesis
    proof (cases "verdict b x")
      case (Next e out)
      let ?s2 = "snd (applyPatch b x ?s1)"
      obtain err where out: "out = PatchError err x" using verdict_Next[OF Next] by blast
      have t: "tracked b ops (Suc k) (keep i out ?s2)"
        by (rule admit_Next_tracked[OF Cons.prems(1) pend Next]) (simp_all add: applyPatch_frame)
      have "tallied b ?s1" using Cons.prems(2) tallied_cong[of ?s1 s b] by simp
      then have c: "tallied b (keep i out ?s2)"
        by (rule tallied_keep)
           (use tracked_free[OF Cons.prems(1) h(1)] h out in
             \<open>simp_all add: applyPatch_frame applyPatch_heap_Next[OF Next]\<close>)
      have q: "pending (keep i out ?s2) = rest" by (simp add: keep_def applyPatch_frame)
      show ?thesis unfolding p replenish_Next[OF r ne Next] by (rule Cons.IH[OF t c q])
    next
      case (Wait c)
      let ?s2 = "s\<lparr>pending := rest, running := running s + 1, inflight := inflight s @ [(i, x, c)]\<rparr>"
      have t: "tracked b ops (Suc k) ?s2" by (rule admit_Wait_tracked[OF Cons.prems(1) pend Wait])
      have c: "tallied b ?s2" using Cons.prems(2) tallied_cong[of ?s2 s b] by simp
      show ?thesis unfolding p replenish_Wait[OF r ne Wait] by (rule Cons.IH[OF t c]) simp
    next
      case (Raise e)
      let ?s2 = "s\<lparr>pending := rest, running := running s + 1, uncaught := uncaught s @ [e]\<rparr>"
      have t: "tracked b ops (Suc k) ?s2" by (rule admit_Raise_tracked[OF Cons.prems(1) pend Raise])
      have c: "tallied b ?s2" using Cons.prems(2) tallied_cong[of ?s2 s b] by simp
      show ?thesis unfolding p replenish_Raise[OF r ne Raise] using t c by blast
    qed
  qed
qed

lemma filter_key_length:
  assumes "distinct (map fst xs)" "(i, v) \<in> set xs"
  shows "Suc (length (filter (\<lambda>e. fst e \<noteq> i) xs)) = length xs"
  using assms
proof (induction xs)
  case Nil
  then show ?case by simp
next
  case (Cons a xs)
  show ?case
  proof (cases "fst a = i")
    case True
    then have "i \<notin> fst ` set xs" using Cons.prems(1) by auto
    then have "filter (\<lambda>e. fst e \<noteq> i) xs = xs" by (auto simp: filter_id_conv)
    then show ?thesis using True by simp
  next
    case False
    then have "(i, v) \<in> set xs" using Cons.prems(2) by auto
    then show ?thesis using Cons False by simp
  qed
qed

lemma storeReply_None:
  "map_of (inflight s) i = None \<Longrightarrow> storeReply b s (Reply i r dt) = s"
  by simp

lemma storeReply_Some:
  assumes "map_of (inflight s) i = Some (x, c)"
  shows "storeReply b s (Reply i r dt) =
         replenish b 10 (pending s)
           (keep i (settle x r)
              (snd (operationHandler x (patchid b) (detailsref b) r
                 (s\<lparr>clock := clock s + dt, inflight := filter (\<lambda>e. fst e \<noteq> i) (inflight s)\<rparr>))))"
  using assms by (simp add: operationHandler_def settle_def state_defs split: sum.splits)

declare storeReply.simps [simp del]

lemma reply_counted:
  fixes r :: "dberror + jsval" and dt :: nat
  assumes c: "counted b n s" and t: "tracked b ops k s" and m: "map_of (inflight s) i = Some (x, c')"
  defines "s3 \<equiv> keep i (settle x r)
              (snd (operationHandler x (patchid b) (detailsref b) r
                 (s\<lparr>clock := clock s + dt, inflight := filter (\<lambda>e. fst e \<noteq> i) (inflight s)\<rparr>)))"
  shows "counted b n s3" and "pending s3 = pending s"
proof -
  have mem: "(i, x, c') \<in> set (inflight s)" using m by (rule map_of_SomeD)
  have d: "distinct (map fst (inflight s))" using t by (simp add: tracked_def)
  have len: "Suc (length (filter (\<lambda>e. fst e \<noteq> i) (inflight s))) = length (inflight s)"
    by (rule filter_key_length[OF d mem])
  then have pos: "0 < running s" using c by (simp add: counted_def)
  then have nc: "\<not> called s" using c by (auto simp: counted_def)
  show "pending s3 = pending s"
    by (simp add: s3_def operationHandler_snd state_defs split: sum.splits)
  show "counted b n s3"
    using c len pos nc
    by (cases r) (auto simp: s3_def counted_def operationHandler_snd state_defs)
qed

lemma reply_tracked:
  fixes r :: "dberror + jsval" and dt :: nat
  assumes t: "tracked b ops k s" and a: "tallied b s" and m: "map_of (inflight s) i = Some (x, c')"
  defines "s3 \<equiv> keep i (settle x r)
              (snd (operationHandler x (patchid b) (detailsref b) r
                 (s\<lparr>clock := clock s + dt, inflight := filter (\<lambda>e. fst e \<noteq> i) (inflight s)\<rparr>)))"
  shows "tracked b ops k s3" and "tallied b s3"
proof -
  have mem: "(i, x, c') \<in> set (inflight s)" using m by (rule map_of_SomeD)
  then have ik: "i < k" and x: "x = ops ! i" and v: "verdict b (ops ! i) = Wait c'"
    using t by (auto simp: tracked_def)
  have kn: "k \<le> length ops" and len: "length (results s) = length ops"
    and sl: "\<forall>j < length ops. slot b ops k s j"
    using t by (auto simp: tracked_def)
  have iin: "i \<in> fst ` set (inflight s)" using mem by force
  have il: "i < length ops" using ik kn by simp
  have si: "slot b ops k s i" using sl il by blast
  have ri: "results s ! i = None" using si ik v iin by (simp add: slot_def)
  have res: "results s3 = (results s)[i := Some (settle x r)]"
    and inf: "inflight s3 = filter (\<lambda>e. fst e \<noteq> i) (inflight s)"
    and pen: "pending s3 = pending s"
    by (simp_all add: s3_def operationHandler_snd state_defs split: sum.splits)
  have "slot b ops k s3 j" if j: "j < length ops" for j
  proof (cases "j = i")
    case True
    then show ?thesis using ik v x il len by (auto simp: slot_def res inf)
  next
    case False
    have "slot b ops k s j" using sl j by simp
    then show ?thesis by (rule slot_same) (use False in \<open>auto simp: res inf\<close>)
  qed
  then show "tracked b ops k s3"
    using t by (auto simp: tracked_def res inf pen distinct_map_filter)
  show "tallied b s3"
    using a ri il len
    by (cases r)
       (simp_all add: s3_def tallied_def operationHandler_snd state_defs settle_def
          filter_update_None succeeded_def failed_def)
qed

lemma storeReply_invariant:
  assumes "invariant b ops s"
  shows "invariant b ops (storeReply b s ev)"
proof -
  obtain i r dt where ev: "ev = Reply i r dt" by (cases ev)
  from assms obtain k where c: "counted b (length ops) s" and t: "tracked b ops k s"
    and a: "tallied b s" by (auto simp: invariant_def)
  show ?thesis
  proof (cases "map_of (inflight s) i")
    case None
    then show ?thesis using assms by (simp add: ev storeReply_None)
  next
    case (Some xc)
    obtain x c' where xc: "xc = (x, c')" by (cases xc)
    have m: "map_of (inflight s) i = Some (x, c')" using Some xc by simp
    let ?s3 = "keep i (settle x r)
              (snd (operationHandler x (patchid b) (detailsref b) r
                 (s\<lparr>clock := clock s + dt, inflight := filter (\<lambda>e. fst e \<noteq> i) (inflight s)\<rparr>)))"
    have eq: "storeReply b s ev = replenish b 10 (pending ?s3) ?s3"
      unfolding ev storeReply_Some[OF m] reply_counted(2)[OF c t m] ..
    have "counted b (length ops) (replenish b 10 (pending ?s3) ?s3) \<and>
          saturated (replenish b 10 (pending ?s3) ?s3)"
      by (rule replenish_counted[OF reply_counted(1)[OF c t m]]) simp
    moreover have "\<exists>k'. tracked b ops k' (replenish b 10 (pending ?s3) ?s3) \<and>
                   tallied b (replenish b 10 (pending ?s3) ?s3)"
      by (rule replenish_tracked[OF reply_tracked[OF t a m]]) simp
    ultimately show ?thesis unfolding eq invariant_def by blast
  qed
qed

lemma replicate_None_count:
  "filter succeeded (replicate n None) = []" "filter failed (replicate n None) = []"
  by (simp_all add: succeeded_def failed_def)

lemma editText_invariant: "invariant b ops (editText b ops now h c)"
proof -
  let ?n = "length ops"
  let ?s0 = "(cache_put (patchid b) (detailsref b) (5 * MINUTE)
          \<lparr>heap = h(detailsref b := \<lparr>status = RUNNING, success = 0, error = 0\<rparr>),
           cache = c, clock = now, pending = [], running = 0, errored = False,
           inflight = [], results = [], called = False, sent = [], uncaught = []\<rparr>)
        \<lparr>pending := zip [0 ..< ?n] ops, running := 0, errored := False,
          inflight := [], results := replicate ?n None, called := False\<rparr>"
  have eq: "editText b ops now h c = replenish b 10 (pending ?s0) ?s0"
    by (simp add: editText_def mapLimit_def)
  have c0: "counted b ?n ?s0" by (simp add: counted_def state_defs)
  have t0: "tracked b ops 0 ?s0" by (simp add: tracked_def slot_def state_defs)
  have a0: "tallied b ?s0" by (simp add: tallied_def state_defs replicate_None_count)
  have "counted b ?n (replenish b 10 (pending ?s0) ?s0) \<and> saturated (replenish b 10 (pending ?s0) ?s0)"
    by (rule replenish_counted[OF c0]) simp
  moreover have "\<exists>k'. tracked b ops k' (replenish b 10 (pending ?s0) ?s0) \<and>
                   tallied b (replenish b 10 (pending ?s0) ?s0)"
    by (rule replenish_tracked[OF t0 a0]) simp
  ultimately show ?thesis unfolding eq invariant_def by blast
qed

lemma run_invariant: "invariant b ops s \<Longrightarrow> invariant b ops (run b s replies)"
  unfolding run_def
  by (induction replies arbitrary: s) (simp_all add: storeReply_invariant)

lemma reachable_invariant: "invariant b ops (run b (editText b ops now h c) replies)"
  by (rule run_invariant[OF editText_invariant])

lemma field_op_not_nullish: "field v k = JStr s \<Longrightarrow> getprop v k = Inr (JStr s)"
  by (cases v) (auto simp: field_def)

lemma field_length_JArr: "field (JArr xs) ''length'' = JNum (int (length xs))"
  by (simp add: field_def)

lemma getIds_unresolved: "\<forall>c s. field x ''id'' \<noteq> JStr (c # s) \<Longrightarrow> \<not> truthy (getIds x)"
  by (cases "field x ''id''") (auto simp: getIds_def neq_Nil_conv)

lemma length_filter_lt: "x \<in> set xs \<Longrightarrow> \<not> P x \<Longrightarrow> length (filter P xs) < length xs"
  by (induction xs) (auto simp: less_Suc_eq_le)

lemma getClassesToPatch_short:
  assumes "x \<in> set xs" and "\<forall>c s. field x ''id'' \<noteq> JStr (c # s)"
  shows "getClassesToPatch (JArr xs) = Inr (filter truthy (map getIds xs))"
    and "length (filter truthy (map getIds xs)) < length xs"
proof -
  show "getClassesToPatch (JArr xs) = Inr (filter truthy (map getIds xs))"
    by (simp add: getClassesToPatch_def)
  have "getIds x \<in> set (map getIds xs)" using assms(1) by simp
  moreover have "\<not> truthy (getIds x)" by (rule getIds_unresolved[OF assms(2)])
  ultimately have "length (filter truthy (map getIds xs)) < length (map getIds xs)"
    by (rule length_filter_lt)
  then show "length (filter truthy (map getIds xs)) < length xs" by simp
qed

lemma getClassesToPatch_not_array: "\<forall>xs. v \<noteq> JArr xs \<Longrightarrow> getClassesToPatch v = Inl TypeError"
  by (cases v) (auto simp: getClassesToPatch_def)

lemma inv_counts:
  assumes "invariant b ops s"
  shows "success (heap s (detailsref b)) + error (heap s (detailsref b)) \<le> length ops"
    and "success (heap s (detailsref b)) = length (filter succeeded (results s))"
    and "error (heap s (detailsref b)) = length (filter failed (results s))"
    and "status (heap s (detailsref b)) \<noteq> RUNNING \<Longrightarrow>
         success (heap s (detailsref b)) + error (heap s (detailsref b)) = length ops"
    and "inflight s = [] \<Longrightarrow> uncaught s = [] \<Longrightarrow> status (heap s (detailsref b)) = COMPLETE"
proof -
  from assms have c: "counted b (length ops) s" and a: "tallied b s" and u: "saturated s"
    by (simp_all add: invariant_def)
  from c have sum: "success (heap s (detailsref b)) + error (heap s (detailsref b)) + running s
      + length (pending s) = length ops"
    and st: "status (heap s (detailsref b)) = (if called s then COMPLETE else RUNNING)"
    and ca: "called s \<longrightarrow> pending s = [] \<and> running s = 0"
    and un: "uncaught s = [] \<longrightarrow> running s = length (inflight s)"
    by (simp_all add: counted_def)
  show "success (heap s (detailsref b)) + error (heap s (detailsref b)) \<le> length ops"
    using sum by arith
  show "success (heap s (detailsref b)) = length (filter succeeded (results s))"
    "error (heap s (detailsref b)) = length (filter failed (results s))"
    using a by (simp_all add: tallied_def)
  show "success (heap s (detailsref b)) + error (heap s (detailsref b)) = length ops"
    if "status (heap s (detailsref b)) \<noteq> RUNNING"
  proof -
    have "called s" using that st by (cases "called s") simp_all
    then have "pending s = []" "running s = 0" using ca by blast+
    then show ?thesis using sum by simp
  qed
  show "status (heap s (detailsref b)) = COMPLETE" if "inflight s = []" "uncaught s = []"
  proof -
    have r: "running s = 0" using that un by simp
    then have "pending s = []" using that u by (simp add: saturated_def)
    then have "called s" using r u by (simp add: saturated_def)
    then show ?thesis using st by simp
  qed
qed

lemmas run_defs =
  run_def editText_def mapLimit_def replenish.simps storeReply.simps applyPatch_def dispatch_def
  patchTextClasses_def patchTextMetadata_def getClassesToPatch_def getIds_def
  sanitizeMetadata_def field_def operationHandler_def cache_put_def count_error_def
  count_success_def keep_def finish_def handlePatchResponse_def set_status_def upt_rec
  split_beta

lemmas example_defs =
  example_final_def example_batch_def example_operations_def example_replies_def
  blank_heap_def empty_cache_def

lemma example_final_status:
  "heap example_final 0 = \<lparr>status = COMPLETE, success = 2, error = 1\<rparr>"
  by (simp add: example_defs run_defs)

lemma example_final_idle:
  "inflight example_final = [] \<and> uncaught example_final = [] \<and> pending example_final = []"
  apply (simp add: example_defs run_defs)
  apply (simp add: present_def)
  apply (simp add: socketResponseBuilder_def socketMessageNameBuilder_def operation_of_def field_def)
  done

lemma example_final_cache:
  "cache example_final ''patch1'' = Some (0, 301012) \<and> clock example_final = 1012"
  by (simp add: example_defs run_defs MINUTE_def)

lemma pending_indices:
  assumes "tracked b ops k s"
  shows "map fst (pending s) = [k ..< length ops]"
proof -
  have "map fst (drop k (zip [0 ..< length ops] ops)) = drop k (map fst (zip [0 ..< length ops] ops))"
    by (rule drop_map[symmetric])
  also have "map fst (zip [0 ..< length ops] ops) = [0 ..< length ops]"
    by (simp add: map_fst_zip)
  finally show ?thesis using assms by (simp add: tracked_def drop_upt)
qed

lemma inv_slot:
  assumes "invariant b ops s" "i < length ops"
  shows "verdict b (ops ! i) = Next e out \<Longrightarrow>
           i \<notin> fst ` set (inflight s) \<and>
           (results s ! i = Some out \<or> (results s ! i = None \<and> i \<in> fst ` set (pending s)))"
    and "verdict b (ops ! i) = Raise e' \<Longrightarrow> results s ! i = None \<and> i \<notin> fst ` set (inflight s)"
    and "results s ! i = Some out' \<Longrightarrow>
           (\<exists>r. out' = settle (ops ! i) r) \<and> (\<forall>e out2. verdict b (ops ! i) = Next e out2 \<longrightarrow> out' = out2)
           \<and> (\<forall>e. verdict b (ops ! i) \<noteq> Raise e)"
proof -
  from assms(1) obtain k where t: "tracked b ops k s" by (auto simp: invariant_def)
  then have sl: "slot b ops k s i" using assms(2) by (simp add: tracked_def)
  have p: "k \<le> i \<Longrightarrow> i \<in> fst ` set (pending s)"
  proof -
    assume "k \<le> i"
    then have "i \<in> set [k ..< length ops]" using assms(2) by simp
    then have "i \<in> set (map fst (pending s))" using pending_indices[OF t] by simp
    then show ?thesis by simp
  qed
  show "i \<notin> fst ` set (inflight s) \<and>
           (results s ! i = Some out \<or> (results s ! i = None \<and> i \<in> fst ` set (pending s)))"
    if "verdict b (ops ! i) = Next e out"
    using sl that p by (cases "k \<le> i") (simp_all add: slot_def)
  show "results s ! i = None \<and> i \<notin> fst ` set (inflight s)" if "verdict b (ops ! i) = Raise e'"
    using sl that by (cases "k \<le> i") (simp_all add: slot_def)
  show "(\<exists>r. out' = settle (ops ! i) r) \<and> (\<forall>e out2. verdict b (ops ! i) = Next e out2 \<longrightarrow> out' = out2)
           \<and> (\<forall>e. verdict b (ops ! i) \<noteq> Raise e)"
    if r: "results s ! i = Some out'"
  proof (cases "verdict b (ops ! i)")
    case (Next e out2)
    then have "out' = out2" using sl r by (cases "k \<le> i") (simp_all add: slot_def)
    moreover obtain err where "out2 = PatchError err (ops ! i)" using verdict_Next[OF Next] by blast
    then have "out2 = settle (ops ! i) (Inl err)" by (simp add: settle_def)
    ultimately show ?thesis using Next by auto
  next
    case (Wait c)
    then show ?thesis using sl r by (cases "k \<le> i") (auto simp add: slot_def)
  next
    case (Raise e)
    then show ?thesis using sl r by (cases "k \<le> i") (simp_all add: slot_def)
  qed
qed

lemma replenish_cache:
  "clock (replenish b limit ps s) = clock s \<and>
   (cache (replenish b limit ps s) = cache s \<or>
    cache (replenish b limit ps s) = (cache s)(patchid b \<mapsto> (detailsref b, clock s + 5 * MINUTE)))"
proof (induction ps arbitrary: s)
  case Nil
  show ?case
    by (auto simp: replenish.simps finish_def handlePatchResponse_def state_defs Let_def
             split: prod.splits)
next
  case (Cons p rest)
  obtain i x where p: "p = (i, x)" by (cases p)
  show ?case
  proof (cases "running s < limit \<and> \<not> errored s")
    case False
    then show ?thesis by (auto simp: p replenish.simps)
  next
    case True
    then have r: "running s < limit" and ne: "\<not> errored s" by auto
    let ?s1 = "s\<lparr>pending := rest, running := running s + 1\<rparr>"
    show ?thesis
    proof (cases "verdict b x")
      case (Next e out)
      let ?s2 = "keep i out (snd (applyPatch b x ?s1))"
      have c2: "clock ?s2 = clock s" by (simp add: keep_def applyPatch_frame)
      have "cache ?s2 = cache s \<or> cache ?s2 = (cache s)(patchid b \<mapsto> (detailsref b, clock s + 5 * MINUTE))"
        using applyPatch_snd_Next[OF Next, of ?s1] by (auto simp: state_defs)
      then show ?thesis unfolding p replenish_Next[OF r ne Next] using Cons.IH[of ?s2] c2 by auto
    next
      case (Wait c)
      show ?thesis unfolding p replenish_Wait[OF r ne Wait]
        using Cons.IH[of "s\<lparr>pending := rest, running := running s + 1, inflight := inflight s @ [(i, x, c)]\<rparr>"]
        by simp
    next
      case (Raise e)
      show ?thesis unfolding p replenish_Raise[OF r ne Raise] by simp
    qed
  qed
qed

lemma replenish_foreign:
  "key \<noteq> patchid b \<Longrightarrow> cache (replenish b limit ps s) key = cache s key"
  using replenish_cache[of b limit ps s] by auto

lemma storeReply_foreign:
  "key \<noteq> patchid b \<Longrightarrow> cache (storeReply b s ev) key = cache s key"
proof (cases ev)
  case (Reply i r dt)
  assume k: "key \<noteq> patchid b"
  show ?thesis
  proof (cases "map_of (inflight s) i")
    case None
    then show ?thesis by (simp add: Reply storeReply_None)
  next
    case (Some xc)
    obtain x c' where "xc = (x, c')" by (cases xc)
    then have m: "map_of (inflight s) i = Some (x, c')" using Some by simp
    show ?thesis unfolding Reply storeReply_Some[OF m] replenish_foreign[OF k]
      using k by (simp add: operationHandler_snd state_defs split: sum.splits)
  qed
qed

lemma run_foreign:
  "key \<noteq> patchid b \<Longrightarrow> cache (run b s replies) key = cache s key"
  unfolding run_def
  by (induction replies arbitrary: s) (simp_all add: storeReply_foreign)

lemma editText_foreign:
  "key \<noteq> patchid b \<Longrightarrow> cache (editText b ops now h c) key = c key"
  by (simp add: editText_def mapLimit_def replenish_foreign state_defs)

lemma handlePatchResponse_status:
  "status (heap (handlePatchResponse b err data s) (detailsref b)) = (if err \<noteq> None then ERROR else COMPLETE)"
  by (simp add: handlePatchResponse_def state_defs Let_def split: prod.splits)

lemma inv_status:
  assumes "invariant b ops s"
  shows "\<not> errored s"
    and "status (heap s (detailsref b)) = (if called s then COMPLETE else RUNNING)"
    and "running s \<le> 10" and "length (inflight s) \<le> running s"
    and "uncaught s = [] \<Longrightarrow> pending s \<noteq> [] \<Longrightarrow> length (inflight s) = 10"
    and "cache s (patchid b) = Some (detailsref b, clock s + 5 * MINUTE)"
proof -
  from assms have c: "counted b (length ops) s" and u: "saturated s"
    by (simp_all add: invariant_def)
  from c show "\<not> errored s"
    and "status (heap s (detailsref b)) = (if called s then COMPLETE else RUNNING)"
    and "running s \<le> 10" and "length (inflight s) \<le> running s"
    and "cache s (patchid b) = Some (detailsref b, clock s + 5 * MINUTE)"
    by (simp_all add: counted_def)
  from c have un: "uncaught s = [] \<longrightarrow> running s = length (inflight s)"
    by (simp add: counted_def)
  show "length (inflight s) = 10" if "uncaught s = []" "pending s \<noteq> []"
    using that un u by (simp add: saturated_def)
qed

lemma storeReply_clock:
  "clock (storeReply b s (Reply i r dt)) = (if map_of (inflight s) i = None then clock s else clock s + dt)"
proof (cases "map_of (inflight s) i")
  case None
  then show ?thesis by (simp add: storeReply_None)
next
  case (Some xc)
  obtain x c' where "xc = (x, c')" by (cases xc)
  then have m: "map_of (inflight s) i = Some (x, c')" using Some by simp
  show ?thesis unfolding storeReply_Some[OF m] using replenish_cache[of b 10] m
    by (simp add: operationHandler_snd state_defs split: sum.splits)
qed

lemma editText_clock: "clock (editText b ops now h c) = now"
  using replenish_cache[of b 10]
  by (simp add: editText_def mapLimit_def state_defs)

lemma operationHandler_cache:
  "cache (snd (operationHandler x (patchid b) (detailsref b) r s)) (patchid b)
     = Some (detailsref b, clock s + 5 * MINUTE)"
  by (simp add: operationHandler_snd state_defs split: sum.splits)

lemma handlePatchResponse_cache:
  "cache (handlePatchResponse b err data s) (patchid b) = Some (detailsref b, clock s + 5 * MINUTE)"
  by (simp add: handlePatchResponse_def state_defs Let_def split: prod.splits)

lemma crowded_start:
  "uncaught (editText example_batch crowded_operations 0 blank_heap empty_cache) = []
   \<and> map fst (pending (editText example_batch crowded_operations 0 blank_heap empty_cache)) = [10]
   \<and> map fst (inflight (editText example_batch crowded_operations 0 blank_heap empty_cache))
       = [0, 1, 2, 3, 4, 5, 6, 7, 8, 9]"
  by (simp add: crowded_operations_def example_batch_def run_defs eval_nat_numeral)

lemma example_final_called: "called example_final"
  by (simp add: example_defs run_defs)

lemma getprop_field: "getprop x k = Inr v \<Longrightarrow> getprop x k' = Inr (field x k')"
  by (cases x) (auto simp: field_def)

lemma verdict_unsupported:
  assumes "getprop x ''path'' = Inr path"
    and "(path = JStr ''/classes'' \<and> field x ''op'' \<noteq> JStr ''add'' \<and> field x ''op'' \<noteq> JStr ''remove'')
       \<or> (path = JStr ''/metadata'' \<and> field x ''op'' \<noteq> JStr ''replace'')
       \<or> (path \<noteq> JStr ''/classes'' \<and> path \<noteq> JStr ''/metadata'')"
  shows "verdict b x = Next None (PatchError (invalid ''Unsupported operation'') x)"
  using assms getprop_field[OF assms(1), of "''op''"]
  by (auto simp: verdict_def patchTextClasses_def patchTextMetadata_def)

lemma applyPatch_counts_Next:
  assumes "verdict b x = Next e out"
  shows "error (heap (snd (applyPatch b x s)) (detailsref b)) = error (heap s (detailsref b)) + 1"
    and "success (heap (snd (applyPatch b x s)) (detailsref b)) = success (heap s (detailsref b))"
    and "status (heap (snd (applyPatch b x s)) (detailsref b)) = status (heap s (detailsref b))"
  by (simp_all add: applyPatch_heap_Next[OF assms])

lemma socketResponseBuilder_PatchError:
  "\<exists>r. socketResponseBuilder textid' (PatchError e operation) = Inr (Some r)
       \<and> id' r = textid' \<and> error' r = Some (PatchError e operation)"
  by (simp add: socketResponseBuilder_def Let_def)




lemma count_partition:
  "length (filter succeeded rs) + length (filter failed rs) + length (filter (\<lambda>r. r = None) rs)
     = length rs"
proof (induction rs)
  case Nil
  then show ?case by simp
next
  case (Cons r rs)
  then show ?case
    by (cases r; cases "the r") (simp_all add: succeeded_def failed_def)
qed

lemma inv_all_settled:
  assumes "invariant b ops s" "None \<notin> set (results s)"
  shows "success (heap s (detailsref b)) + error (heap s (detailsref b)) = length ops"
proof -
  from assms(1) obtain k where "tracked b ops k s" and a: "tallied b s"
    by (auto simp: invariant_def)
  then have l: "length (results s) = length ops" by (simp add: tracked_def)
  have "x \<noteq> None" if "x \<in> set (results s)" for x using that assms(2) by metis
  then have "filter (\<lambda>r. r = None) (results s) = []" by (simp add: filter_empty_conv)
  then show ?thesis using count_partition[of "results s"] a l by (simp add: tallied_def)
qed

lemma example_final_results:
  "results example_final =
     [Some (Result (JObj [(''classes'', JArr [JStr ''c1'', JStr ''c2''])])),
      Some (Result (JObj [(''metadata'', JObj [(''value'', JStr ''x'')])])),
      Some (PatchError (invalid ''Unsupported operation'')
              (JObj [(''op'', JStr ''bogus''), (''path'', JStr ''/nope'')]))]"
  by (simp add: example_defs run_defs)

lemma finish_called_mono: "called s \<Longrightarrow> called (finish b err s)"
  by (simp add: finish_called)

lemma finish_uncaught_or_called: "uncaught (finish b err s) = [] \<or> called (finish b err s)"
  by (simp add: finish_called)

lemma replenish_quiet:
  assumes "never_raises b ops"
  shows "tracked b ops k s \<Longrightarrow> pending s = ps \<Longrightarrow> uncaught s = [] \<or> called s \<Longrightarrow>
         (uncaught (replenish b limit ps s) = [] \<or> called (replenish b limit ps s))
         \<and> counter_sum b s \<le> counter_sum b (replenish b limit ps s)"
proof (induction ps arbitrary: s k)
  case Nil
  then show ?case
    by (auto simp: replenish_Nil finish_called counter_sum_def finish_counts)
next
  case (Cons p rest)
  obtain i x where p: "p = (i, x)" by (cases p)
  have pend: "pending s = (i, x) # rest" using Cons.prems(2) p by simp
  from tracked_head[OF Cons.prems(1) pend] have h: "k < length ops" "i = k" "x = ops ! k" by auto
  then have xin: "x \<in> set ops" by simp
  show ?case
  proof (cases "running s < limit \<and> \<not> errored s")
    case False
    then show ?thesis using Cons.prems(3) replenish_stop[OF False pend, of b] by (simp add: p)
  next
    case True
    then have r: "running s < limit" and ne: "\<not> errored s" by auto
    let ?s1 = "s\<lparr>pending := rest, running := running s + 1\<rparr>"
    show ?thesis
    proof (cases "verdict b x")
      case (Next e out)
      let ?s2 = "keep i out (snd (applyPatch b x ?s1))"
      have t: "tracked b ops (Suc k) ?s2"
        by (rule admit_Next_tracked[OF Cons.prems(1) pend Next]) (simp_all add: applyPatch_frame)
      have q: "pending ?s2 = rest" by (simp add: keep_def applyPatch_frame)
      have u: "uncaught ?s2 = [] \<or> called ?s2"
        using Cons.prems(3) by (simp add: keep_def applyPatch_frame)
      have m: "counter_sum b s \<le> counter_sum b ?s2"
        by (simp add: counter_sum_def keep_def applyPatch_heap_Next[OF Next])
      show ?thesis unfolding p replenish_Next[OF r ne Next]
        using Cons.IH[OF t q u] m by simp
    next
      case (Wait c)
      let ?s2 = "s\<lparr>pending := rest, running := running s + 1, inflight := inflight s @ [(i, x, c)]\<rparr>"
      have t: "tracked b ops (Suc k) ?s2" by (rule admit_Wait_tracked[OF Cons.prems(1) pend Wait])
      have u: "uncaught ?s2 = [] \<or> called ?s2" using Cons.prems(3) by simp
      have m: "counter_sum b s = counter_sum b ?s2" by (simp add: counter_sum_def)
      show ?thesis unfolding p replenish_Wait[OF r ne Wait]
        using Cons.IH[OF t _ u] m by simp
    next
      case (Raise e)
      then show ?thesis using assms xin by (auto simp: never_raises_def)
    qed
  qed
qed

lemma reply_progress:
  fixes r :: "dberror + jsval" and dt :: nat
  assumes nr: "never_raises b ops" and inv: "invariant b ops s"
    and q: "uncaught s = [] \<or> called s" and m: "map_of (inflight s) i = Some (x, c')"
  shows "uncaught (storeReply b s (Reply i r dt)) = [] \<or> called (storeReply b s (Reply i r dt))"
    and "counter_sum b s < counter_sum b (storeReply b s (Reply i r dt))"
proof -
  let ?s3 = "keep i (settle x r)
              (snd (operationHandler x (patchid b) (detailsref b) r
                 (s\<lparr>clock := clock s + dt, inflight := filter (\<lambda>e. fst e \<noteq> i) (inflight s)\<rparr>)))"
  from inv obtain k where c: "counted b (length ops) s" and t: "tracked b ops k s"
    and a: "tallied b s" by (auto simp: invariant_def)
  have t3: "tracked b ops k ?s3" by (rule reply_tracked(1)[OF t a m])
  have p3: "pending ?s3 = pending s" by (rule reply_counted(2)[OF c t m])
  have q3: "uncaught ?s3 = [] \<or> called ?s3"
    using q by (simp add: operationHandler_snd state_defs split: sum.splits)
  have m3: "counter_sum b ?s3 = counter_sum b s + 1"
    by (simp add: counter_sum_def operationHandler_snd state_defs split: sum.splits)
  have eq: "storeReply b s (Reply i r dt) = replenish b 10 (pending ?s3) ?s3"
    unfolding storeReply_Some[OF m] p3 ..
  from replenish_quiet[OF nr t3 _ q3, of "pending ?s3" 10]
  show "uncaught (storeReply b s (Reply i r dt)) = [] \<or> called (storeReply b s (Reply i r dt))"
    and "counter_sum b s < counter_sum b (storeReply b s (Reply i r dt))"
    unfolding eq using m3 by simp_all
qed

lemma storeReply_quiet:
  assumes "never_raises b ops" "invariant b ops s" "uncaught s = [] \<or> called s"
  shows "uncaught (storeReply b s ev) = [] \<or> called (storeReply b s ev)"
proof -
  obtain i r dt where ev: "ev = Reply i r dt" by (cases ev)
  show ?thesis
  proof (cases "map_of (inflight s) i")
    case None
    then show ?thesis using assms(3) by (simp add: ev storeReply_None)
  next
    case (Some xc)
    obtain x c' where "xc = (x, c')" by (cases xc)
    then have "map_of (inflight s) i = Some (x, c')" using Some by simp
    then show ?thesis unfolding ev by (rule reply_progress(1)[OF assms])
  qed
qed

lemma run_quiet:
  assumes "never_raises b ops"
  shows "invariant b ops s \<Longrightarrow> uncaught s = [] \<or> called s \<Longrightarrow>
         uncaught (run b s replies) = [] \<or> called (run b s replies)"
  unfolding run_def
proof (induction replies arbitrary: s)
  case Nil
  then show ?case by simp
next
  case (Cons ev replies)
  have "invariant b ops (storeReply b s ev)" by (rule storeReply_invariant[OF Cons.prems(1)])
  moreover have "uncaught (storeReply b s ev) = [] \<or> called (storeReply b s ev)"
    by (rule storeReply_quiet[OF assms Cons.prems])
  ultimately show ?case using Cons.IH by simp
qed

lemma editText_quiet:
  assumes "never_raises b ops"
  shows "uncaught (editText b ops now h c) = [] \<or> called (editText b ops now h c)"
proof -
  let ?n = "length ops"
  let ?s0 = "(cache_put (patchid b) (detailsref b) (5 * MINUTE)
          \<lparr>heap = h(detailsref b := \<lparr>status = RUNNING, success = 0, error = 0\<rparr>),
           cache = c, clock = now, pending = [], running = 0, errored = False,
           inflight = [], results = [], called = False, sent = [], uncaught = []\<rparr>)
        \<lparr>pending := zip [0 ..< ?n] ops, running := 0, errored := False,
          inflight := [], results := replicate ?n None, called := False\<rparr>"
  have eq: "editText b ops now h c = replenish b 10 (pending ?s0) ?s0"
    by (simp add: editText_def mapLimit_def)
  have t0: "tracked b ops 0 ?s0" by (simp add: tracked_def slot_def state_defs)
  have "uncaught ?s0 = [] \<or> called ?s0" by (simp add: state_defs)
  from replenish_quiet[OF assms t0 _ this, of "pending ?s0" 10]
  show ?thesis unfolding eq by simp
qed

lemma eventually_called:
  assumes nr: "never_raises b ops"
  shows "invariant b ops s \<Longrightarrow> uncaught s = [] \<or> called s \<Longrightarrow> \<exists>more. called (run b s more)"
proof (induction "length ops - counter_sum b s" arbitrary: s rule: less_induct)
  case less
  show ?case
  proof (cases "called s")
    case True
    then have "called (run b s [])" by (simp add: run_def)
    then show ?thesis by blast
  next
    case False
    then have u: "uncaught s = []" using less.prems(2) by simp
    have "inflight s \<noteq> []"
    proof
      assume "inflight s = []"
      then have "status (heap s (detailsref b)) = COMPLETE"
        using inv_counts(5)[OF less.prems(1)] u by simp
      then show False using inv_status(2)[OF less.prems(1)] False by simp
    qed
    then obtain i x c' rest where inf: "inflight s = (i, x, c') # rest"
      by (cases "inflight s") auto
    then have m: "map_of (inflight s) i = Some (x, c')" by simp
    let ?s' = "storeReply b s (Reply i (Inr JNull) 0)"
    have inv': "invariant b ops ?s'" by (rule storeReply_invariant[OF less.prems(1)])
    have q': "uncaught ?s' = [] \<or> called ?s'"
      and gt: "counter_sum b s < counter_sum b ?s'"
      using reply_progress[OF nr less.prems(1) less.prems(2) m] by blast+
    have "counter_sum b ?s' \<le> length ops"
      using inv_counts(1)[OF inv'] by (simp add: counter_sum_def)
    then have "length ops - counter_sum b ?s' < length ops - counter_sum b s" using gt by simp
    from less.hyps[OF this inv' q'] obtain more where "called (run b ?s' more)" by blast
    then have "called (run b s (Reply i (Inr JNull) 0 # more))" by (simp add: run_def)
    then show ?thesis by blast
  qed
qed

lemma run_append: "run b s (xs @ ys) = run b (run b s xs) ys"
  by (simp add: run_def)

lemma eventually_complete:
  assumes "never_raises b ops"
  shows "\<exists>more. status (heap (run b (editText b ops now h c) (replies @ more)) (detailsref b)) = COMPLETE
          \<and> success (heap (run b (editText b ops now h c) (replies @ more)) (detailsref b))
            + error (heap (run b (editText b ops now h c) (replies @ more)) (detailsref b)) = length ops"
proof -
  let ?S = "run b (editText b ops now h c) replies"
  have inv: "invariant b ops ?S" by (rule reachable_invariant)
  have "uncaught ?S = [] \<or> called ?S"
    by (rule run_quiet[OF assms editText_invariant editText_quiet[OF assms]])
  from eventually_called[OF assms inv this] obtain more where c: "called (run b ?S more)" by blast
  have inv': "invariant b ops (run b ?S more)" by (rule run_invariant[OF inv])
  have st: "status (heap (run b ?S more) (detailsref b)) = COMPLETE"
    using inv_status(2)[OF inv'] c by simp
  then have "success (heap (run b ?S more) (detailsref b))
            + error (heap (run b ?S more) (detailsref b)) = length ops"
    using inv_counts(4)[OF inv'] by simp
  then show ?thesis using st unfolding run_append by blast
qed

lemma example_never_raises:
  "x \<in> set example_operations \<Longrightarrow> fst (applyPatch example_batch x st) \<noteq> Raise e"
  by (auto simp: example_operations_def example_batch_def applyPatch_def dispatch_def
        patchTextClasses_def patchTextMetadata_def getClassesToPatch_def getIds_def
        sanitizeMetadata_def field_def operationHandler_def)

lemma socketMessageNameBuilder_words:
  "socketMessageNameBuilder num operation =
     (case verb_of num operation of
        Inl e \<Rightarrow> Inl e
      | Inr v \<Rightarrow> Inr (aspect_of operation @ '':'' @ v))"
proof (cases "truthy operation")
  case True
  then show ?thesis
    by (simp add: socketMessageNameBuilder_def aspect_of_def verb_of_def Let_def split: sum.splits)
next
  case False
  then have f: "field operation ''path'' = JUndefined" "field operation ''op'' = JUndefined"
    by (cases operation; simp add: field_def)+
  show ?thesis using False
    by (simp add: socketMessageNameBuilder_def aspect_of_def verb_of_def Let_def f)
qed

lemma forEach_published:
  "(name, r) \<in> set (fst (forEach num t data)) \<Longrightarrow>
   \<exists>out v. out \<in> set data \<and> socketResponseBuilder t out = Inr (Some r)
     \<and> socketMessageNameBuilder num (operation_of out) = Inr v \<and> name = ''text:update:'' @ v"
proof (induction data)
  case Nil
  then show ?case by simp
next
  case (Cons a data)
  show ?case
  proof (cases "socketResponseBuilder t a")
    case (Inl e)
    then show ?thesis using Cons.prems by simp
  next
    case (Inr p)
    show ?thesis
    proof (cases p)
      case None
      then show ?thesis using Cons Inr by auto
    next
      case (Some resp)
      show ?thesis
      proof (cases "socketMessageNameBuilder num (operation_of a)")
        case (Inl e)
        then show ?thesis using Cons.prems Inr Some by simp
      next
        case nm: (Inr v)
        have "(name, r) = (''text:update:'' @ v, resp) \<or> (name, r) \<in> set (fst (forEach num t data))"
          using Cons.prems Inr Some nm by (auto split: prod.splits)
        then show ?thesis
        proof
          assume "(name, r) = (''text:update:'' @ v, resp)"
          then show ?thesis using Inr Some nm by auto
        next
          assume "(name, r) \<in> set (fst (forEach num t data))"
          then show ?thesis using Cons.IH by auto
        qed
      qed
    qed
  qed
qed

lemma present_member: "out \<in> set (present rs) \<longleftrightarrow> Some out \<in> set rs"
  by (induction rs) (auto simp: present_def split: option.splits)

lemma announced_quiet: "sent s = [] \<Longrightarrow> \<not> called s \<Longrightarrow> announced b s"
  by (simp add: announced_def)

lemma finish_announced: "announced b s \<Longrightarrow> announced b (finish b err s)"
  by (auto simp: announced_def finish_def handlePatchResponse_def state_defs Let_def
           split: prod.splits option.splits)

lemma replenish_announced:
  "counted b n s \<Longrightarrow> announced b s \<Longrightarrow> pending s = ps \<Longrightarrow> announced b (replenish b 10 ps s)"
proof (induction ps arbitrary: s)
  case Nil
  then show ?case using finish_announced[of b s] by (simp add: replenish_Nil)
next
  case (Cons p rest)
  obtain i x where p: "p = (i, x)" by (cases p)
  have ne: "\<not> errored s" using Cons.prems(1) by (simp add: counted_def)
  have pend: "pending s = (i, x) # rest" using Cons.prems(3) p by simp
  have nc: "\<not> called s" using Cons.prems(1) pend by (auto simp: counted_def)
  then have q: "sent s = []" using Cons.prems(2) by (simp add: announced_def)
  show ?case
  proof (cases "running s < 10")
    case False
    then show ?thesis using Cons.prems(2) replenish_stop[OF _ pend, of 10 b] by (simp add: p)
  next
    case True
    let ?s1 = "s\<lparr>pending := rest, running := running s + 1\<rparr>"
    show ?thesis
    proof (cases "verdict b x")
      case (Next e out)
      let ?s2 = "keep i out (snd (applyPatch b x ?s1))"
      from applyPatch_snd_Next[OF Next, of ?s1]
      have c: "counted b n ?s2" and r: "pending ?s2 = rest"
        using admit_Next_counted[OF Cons.prems(1) pend True] by blast+
      have a: "announced b ?s2"
        by (rule announced_quiet) (use q nc in \<open>simp_all add: keep_def applyPatch_frame\<close>)
      show ?thesis unfolding p replenish_Next[OF True ne Next] by (rule Cons.IH[OF c a r])
    next
      case (Wait c)
      let ?s2 = "s\<lparr>pending := rest, running := running s + 1, inflight := inflight s @ [(i, x, c)]\<rparr>"
      have c2: "counted b n ?s2" by (rule admit_Wait_counted[OF Cons.prems(1) pend True])
      have a: "announced b ?s2" by (rule announced_quiet) (use q nc in simp_all)
      show ?thesis unfolding p replenish_Wait[OF True ne Wait] by (rule Cons.IH[OF c2 a]) simp
    next
      case (Raise e)
      let ?s2 = "s\<lparr>pending := rest, running := running s + 1, uncaught := uncaught s @ [e]\<rparr>"
      have "announced b ?s2" by (rule announced_quiet) (use q nc in simp_all)
      then show ?thesis unfolding p replenish_Raise[OF True ne Raise] .
    qed
  qed
qed

lemma storeReply_announced:
  assumes inv: "invariant b ops s" and an: "announced b s"
  shows "announced b (storeReply b s ev)"
proof -
  obtain i r dt where ev: "ev = Reply i r dt" by (cases ev)
  from inv obtain k where c: "counted b (length ops) s" and t: "tracked b ops k s"
    by (auto simp: invariant_def)
  show ?thesis
  proof (cases "map_of (inflight s) i")
    case None
    then show ?thesis using an by (simp add: ev storeReply_None)
  next
    case (Some xc)
    obtain x c' where xc: "xc = (x, c')" by (cases xc)
    have m: "map_of (inflight s) i = Some (x, c')" using Some xc by simp
    let ?s3 = "keep i (settle x r)
              (snd (operationHandler x (patchid b) (detailsref b) r
                 (s\<lparr>clock := clock s + dt, inflight := filter (\<lambda>e. fst e \<noteq> i) (inflight s)\<rparr>)))"
    have eq: "storeReply b s ev = replenish b 10 (pending ?s3) ?s3"
      unfolding ev storeReply_Some[OF m] reply_counted(2)[OF c t m] ..
    have "0 < length (inflight s)" using m by (cases "inflight s") auto
    moreover have "length (inflight s) \<le> running s" using c by (simp add: counted_def)
    ultimately have "0 < running s" by arith
    then have nc: "\<not> called s" using c by (auto simp: counted_def)
    then have q: "sent s = []" using an by (simp add: announced_def)
    have a3: "announced b ?s3"
      by (rule announced_quiet)
         (use q nc in \<open>simp_all add: operationHandler_snd state_defs split: sum.splits\<close>)
    show ?thesis unfolding eq
      by (rule replenish_announced[OF reply_counted(1)[OF c t m] a3]) simp
  qed
qed

lemma editText_announced: "announced b (editText b ops now h c)"
proof -
  let ?n = "length ops"
  let ?s0 = "(cache_put (patchid b) (detailsref b) (5 * MINUTE)
          \<lparr>heap = h(detailsref b := \<lparr>status = RUNNING, success = 0, error = 0\<rparr>),
           cache = c, clock = now, pending = [], running = 0, errored = False,
           inflight = [], results = [], called = False, sent = [], uncaught = []\<rparr>)
        \<lparr>pending := zip [0 ..< ?n] ops, running := 0, errored := False,
          inflight := [], results := replicate ?n None, called := False\<rparr>"
  have eq: "editText b ops now h c = replenish b 10 (pending ?s0) ?s0"
    by (simp add: editText_def mapLimit_def)
  have c0: "counted b ?n ?s0" by (simp add: counted_def state_defs)
  have a0: "announced b ?s0" by (simp add: announced_def state_defs)
  show ?thesis unfolding eq by (rule replenish_announced[OF c0 a0]) simp
qed

lemma run_announced:
  "invariant b ops s \<Longrightarrow> announced b s \<Longrightarrow> announced b (run b s replies)"
  unfolding run_def
proof (induction replies arbitrary: s)
  case Nil
  then show ?case by simp
next
  case (Cons ev replies)
  have "invariant b ops (storeReply b s ev)" by (rule storeReply_invariant[OF Cons.prems(1)])
  moreover have "announced b (storeReply b s ev)" by (rule storeReply_announced[OF Cons.prems])
  ultimately show ?case using Cons.IH by simp
qed

lemma reachable_announced: "announced b (run b (editText b ops now h c) replies)"
  by (rule run_announced[OF editText_invariant editText_announced])

lemma example_final_sent:
  "sent example_final =
     [(''text:update:unknown:unknown'',
       \<lparr>id' = ''text1'', error' = None, value' = None,
          classes' = Some (JArr [JStr ''c1'', JStr ''c2''])\<rparr>),
      (''text:update:unknown:unknown'',
       \<lparr>id' = ''text1'', error' = None, value' = Some (JStr ''x''), classes' = None\<rparr>),
      (''text:update:nope:bogus'',
       \<lparr>id' = ''text1'',
          error' = Some (PatchError (invalid ''Unsupported operation'')
                     (JObj [(''op'', JStr ''bogus''), (''path'', JStr ''/nope'')])),
          value' = None, classes' = None\<rparr>)]"
  apply (simp add: example_defs run_defs)
  apply (simp add: present_def)
  apply (simp add: socketResponseBuilder_def field_def operation_of_def socketMessageNameBuilder_def)
  done

lemma falsy_operation_sent:
  "map fst (sent (run example_batch
      (editText example_batch [JObj [(''op'', JNum 0), (''path'', JStr [])]] 0 blank_heap empty_cache) []))
   = [''text:update:unknown:unknown'']"
  apply (simp add: example_batch_def run_defs)
  apply (simp add: present_def)
  apply (simp add: socketResponseBuilder_def field_def operation_of_def socketMessageNameBuilder_def)
  done

lemma forEach_complete:
  "snd (forEach num t data) = None \<Longrightarrow>
   fst (forEach num t data) = concat (map (event_of num t) data)"
proof (induction data)
  case Nil
  then show ?case by simp
next
  case (Cons a data)
  show ?case
  proof (cases "socketResponseBuilder t a")
    case (Inl e)
    then show ?thesis using Cons.prems by simp
  next
    case (Inr p)
    show ?thesis
    proof (cases p)
      case None
      then show ?thesis using Cons Inr by (simp add: event_of_def)
    next
      case (Some resp)
      show ?thesis
      proof (cases "verb_of num (operation_of a)")
        case (Inl e)
        then show ?thesis using Cons.prems Inr Some
          by (simp add: socketMessageNameBuilder_words)
      next
        case v: (Inr v)
        obtain evs x where fe: "forEach num t data = (evs, x)" by (cases "forEach num t data")
        then have "x = None"
          using Cons.prems Inr Some v by (simp add: socketMessageNameBuilder_words)
        then have "evs = concat (map (event_of num t) data)" using Cons.IH fe by simp
        moreover have "event_of num t a
            = [(''text:update:'' @ aspect_of (operation_of a) @ '':'' @ v, resp)]"
          using Inr Some v by (simp add: event_of_def)
        ultimately show ?thesis using Inr Some v fe
          by (simp add: socketMessageNameBuilder_words)
      qed
    qed
  qed
qed

section \<open>Claims\<close>

text \<open>
  C1. For every batch of N operations and every sequence of store answers, each settled
  operation is counted once, in the success counter when its result is a store result
  and in the error counter when it is a PatchError; so success + error never exceeds N,
  and equals N once every operation has a result and once the terminal status is
  assigned. The terminal status is assigned as soon as the store has answered every
  call it received, provided no callback raised; and when no operation of the batch
  makes \<open>applyPatch\<close> raise, the store's answers to the calls still in flight lead from
  any point of the execution to the terminal status with success + error = N.
\<close>

theorem C1_each_settled_operation_counted_once:
  "success (heap (run b (editText b ops now h c) replies) (detailsref b))
     + error (heap (run b (editText b ops now h c) replies) (detailsref b)) \<le> length ops
   \<and> success (heap (run b (editText b ops now h c) replies) (detailsref b))
       = length (filter succeeded (results (run b (editText b ops now h c) replies)))
   \<and> error (heap (run b (editText b ops now h c) replies) (detailsref b))
       = length (filter failed (results (run b (editText b ops now h c) replies)))
   \<and> (None \<notin> set (results (run b (editText b ops now h c) replies)) \<longrightarrow>
        success (heap (run b (editText b ops now h c) replies) (detailsref b))
          + error (heap (run b (editText b ops now h c) replies) (detailsref b)) = length ops)
   \<and> (status (heap (run b (editText b ops now h c) replies) (detailsref b)) \<noteq> RUNNING \<longrightarrow>
        success (heap (run b (editText b ops now h c) replies) (detailsref b))
          + error (heap (run b (editText b ops now h c) replies) (detailsref b)) = length ops)
   \<and> (inflight (run b (editText b ops now h c) replies) = []
        \<and> uncaught (run b (editText b ops now h c) replies) = [] \<longrightarrow>
        status (heap (run b (editText b ops now h c) replies) (detailsref b)) = COMPLETE)
   \<and> ((\<forall>x \<in> set ops. \<forall>e st. fst (applyPatch b x st) \<noteq> Raise e) \<longrightarrow>
        (\<exists>more.
           status (heap (run b (editText b ops now h c) (replies @ more)) (detailsref b)) = COMPLETE
           \<and> success (heap (run b (editText b ops now h c) (replies @ more)) (detailsref b))
               + error (heap (run b (editText b ops now h c) (replies @ more)) (detailsref b))
               = length ops))"
proof -
  have "never_raises b ops" if "\<forall>x \<in> set ops. \<forall>e st. fst (applyPatch b x st) \<noteq> Raise e"
    using that by (auto simp: never_raises_def applyPatch_fst)
  then show ?thesis
    using inv_counts[OF reachable_invariant, of b ops now h c replies]
      inv_all_settled[OF reachable_invariant, of b ops now h c replies]
      eventually_complete[of b ops now h c replies]
    by blast
qed

theorem C1_witness:
  "status (heap example_final (detailsref example_batch)) \<noteq> RUNNING
   \<and> None \<notin> set (results example_final)
   \<and> inflight example_final = [] \<and> uncaught example_final = []
   \<and> success (heap example_final (detailsref example_batch))
       + error (heap example_final (detailsref example_batch)) = length example_operations
   \<and> (\<exists>more.
         status (heap (run example_batch
                        (editText example_batch example_operations 1000 blank_heap empty_cache)
                        ([] @ more)) (detailsref example_batch)) = COMPLETE)"
proof -
  have nr: "\<forall>x \<in> set example_operations. \<forall>e st. fst (applyPatch example_batch x st) \<noteq> Raise e"
    using example_never_raises by blast
  have 1: "status (heap example_final (detailsref example_batch)) \<noteq> RUNNING"
    using example_final_status by (simp add: example_batch_def)
  have 2: "None \<notin> set (results example_final)"
    by (simp add: example_final_results)
  have 3: "success (heap example_final (detailsref example_batch))
       + error (heap example_final (detailsref example_batch)) = length example_operations"
    using C1_each_settled_operation_counted_once
      [of example_batch example_operations 1000 blank_heap empty_cache example_replies,
       folded example_final_def] 1
    by blast
  have 4: "\<exists>more.
         status (heap (run example_batch
                        (editText example_batch example_operations 1000 blank_heap empty_cache)
                        ([] @ more)) (detailsref example_batch)) = COMPLETE"
    using C1_each_settled_operation_counted_once
      [of example_batch example_operations 1000 blank_heap empty_cache "[]"] nr
    by blast
  show ?thesis using 1 2 3 4 example_final_idle by blast
qed

text \<open>
  C4. An add or remove on \<open>/classes\<close> whose value is a list with an element that has no
  string \<open>id\<close> (or whose \<open>id\<close> is the empty string) is rejected as a whole with the
  error "Invalid value array": the handler calls its callback with that error and hands
  nothing to the store, and the operation settles at once as a PatchError.
\<close>

theorem C4_unresolvable_element_rejects_operation:
  assumes "field patchoperation ''op'' = JStr ''add'' \<or> field patchoperation ''op'' = JStr ''remove''"
    and "field patchoperation ''value'' = JArr xs"
    and "x \<in> set xs" and "\<forall>c s. field x ''id'' \<noteq> JStr (c # s)"
  shows "patchTextClasses tenantid' textid' patchoperation = Callback (invalid ''Invalid value array'')
     \<and> (\<forall>c. patchTextClasses tenantid' textid' patchoperation \<noteq> Store c)
     \<and> (field patchoperation ''path'' = JStr ''/classes'' \<longrightarrow>
          fst (applyPatch b patchoperation s)
            = Next None (PatchError (invalid ''Invalid value array'') patchoperation)
          \<and> inflight (snd (applyPatch b patchoperation s)) = inflight s)"
proof -
  from assms(1) have g: "getprop patchoperation ''op'' = Inr (JStr ''add'')
      \<or> getprop patchoperation ''op'' = Inr (JStr ''remove'')"
    using field_op_not_nullish by blast
  have l: "length (filter truthy (map getIds xs)) \<noteq> length xs"
    using getClassesToPatch_short(2)[OF assms(3,4)] by simp
  from g l have p: "patchTextClasses tenantid' textid' patchoperation
      = Callback (invalid ''Invalid value array'')" for tenantid' textid'
    by (auto simp: patchTextClasses_def assms(2) getClassesToPatch_def field_length_JArr)
  have "fst (applyPatch b patchoperation s)
      = Next None (PatchError (invalid ''Invalid value array'') patchoperation)"
    if "field patchoperation ''path'' = JStr ''/classes''"
    using field_op_not_nullish[OF that] p
    by (simp add: applyPatch_fst verdict_def)
  then show ?thesis using p by (simp add: applyPatch_frame)
qed

theorem C4_witness:
  "field (JObj [(''op'', JStr ''add''), (''path'', JStr ''/classes''),
                (''value'', JArr [JObj [(''id'', JStr ''c1'')], JObj [(''name'', JStr ''c2'')]])])
         ''op'' = JStr ''add''
   \<and> JObj [(''name'', JStr ''c2'')] \<in> set [JObj [(''id'', JStr ''c1'')], JObj [(''name'', JStr ''c2'')]]
   \<and> patchTextClasses ''tenant'' ''text1''
        (JObj [(''op'', JStr ''add''), (''path'', JStr ''/classes''),
               (''value'', JArr [JObj [(''id'', JStr ''c1'')], JObj [(''name'', JStr ''c2'')]])])
       = Callback (invalid ''Invalid value array'')
   \<and> fst (applyPatch example_batch
        (JObj [(''op'', JStr ''add''), (''path'', JStr ''/classes''),
               (''value'', JArr [JObj [(''id'', JStr ''c1'')], JObj [(''name'', JStr ''c2'')]])])
        example_final)
       = Next None (PatchError (invalid ''Invalid value array'')
           (JObj [(''op'', JStr ''add''), (''path'', JStr ''/classes''),
               (''value'', JArr [JObj [(''id'', JStr ''c1'')], JObj [(''name'', JStr ''c2'')]])]))"
  using C4_unresolvable_element_rejects_operation
      [of "JObj [(''op'', JStr ''add''), (''path'', JStr ''/classes''),
               (''value'', JArr [JObj [(''id'', JStr ''c1'')], JObj [(''name'', JStr ''c2'')]])]"
          "[JObj [(''id'', JStr ''c1'')], JObj [(''name'', JStr ''c2'')]]"
          "JObj [(''name'', JStr ''c2'')]" "''tenant''" "''text1''" example_batch example_final]
  by (simp add: field_def)

text \<open>
  C3. The error branch of the completion callback is not reachable. \<open>handleResult\<close>
  and the branch for an unrecognized path always call the executor's callback with a
  null error argument, whatever the outcome of the operation; so, for every batch and
  every sequence of store answers, the executor never sees an error, the status is
  never ERROR, and the completion callback, once it has run, has set COMPLETE. (The
  callback itself would set ERROR if it were given an error.)
\<close>

theorem C3_executor_error_branch_unreachable:
  "fst (fst (operationHandler patchoperation patchid' patchdetails r st)) = None
   \<and> (\<forall>err out. fst (applyPatch b patchoperation st) = Next err out \<longrightarrow> err = None)
   \<and> status (heap (handlePatchResponse b None data st) (detailsref b)) = COMPLETE
   \<and> status (heap (handlePatchResponse b (Some e) data st) (detailsref b)) = ERROR
   \<and> \<not> errored (run b (editText b ops now h c) replies)
   \<and> status (heap (run b (editText b ops now h c) replies) (detailsref b)) \<noteq> ERROR
   \<and> (called (run b (editText b ops now h c) replies) \<longrightarrow>
        status (heap (run b (editText b ops now h c) replies) (detailsref b)) = COMPLETE)"
  using inv_status(1,2)[OF reachable_invariant, of b ops now h c replies]
    verdict_Next[of b patchoperation]
  by (auto simp: operationHandler_fst applyPatch_fst handlePatchResponse_status)

theorem C3_witness:
  "called example_final
   \<and> status (heap example_final (detailsref example_batch)) = COMPLETE
   \<and> fst (applyPatch example_batch (JObj [(''op'', JStr ''bogus''), (''path'', JStr ''/nope'')]) example_final)
       = Next None (PatchError (invalid ''Unsupported operation'')
           (JObj [(''op'', JStr ''bogus''), (''path'', JStr ''/nope'')]))"
  using C3_executor_error_branch_unreachable[where b = example_batch and ops = example_operations and now = 1000 and h = blank_heap
        and c = empty_cache and replies = example_replies and st = example_final
        and patchoperation = "JObj [(''op'', JStr ''bogus''), (''path'', JStr ''/nope'')]",
      folded example_final_def]
    example_final_status example_final_called
  by (simp add: example_batch_def applyPatch_def)

text \<open>
  C8. Every write of the status record passes a time to live of 5 minutes (300000 ms),
  counted from the time of the write: the put in \<open>handleResult\<close>, the put in the
  completion callback and the put at creation. The clock of a batch moves only in a
  callback that the store answers, and each of these writes; so at any moment the
  entry expires 5 minutes after the last write. \<open>patchStatus\<close> returns the record
  at any time less than 5 minutes after the last write, and not-found from then on; it
  returns not-found for every other identifier that was not in the cache.
\<close>

theorem C8_status_expires_five_minutes_after_last_write:
  "5 * MINUTE = 300000
   \<and> cache (snd (operationHandler x (patchid b) (detailsref b) r st)) (patchid b)
       = Some (detailsref b, clock st + 300000)
   \<and> cache (handlePatchResponse b err data st) (patchid b) = Some (detailsref b, clock st + 300000)
   \<and> cache (editText b ops now h c) (patchid b) = Some (detailsref b, now + 300000)
   \<and> clock (editText b ops now h c) = now
   \<and> clock (storeReply b st (Reply i r dt))
       = (if map_of (inflight st) i = None then clock st else clock st + dt)
   \<and> cache (run b (editText b ops now h c) replies) (patchid b)
       = Some (detailsref b, clock (run b (editText b ops now h c) replies) + 300000)
   \<and> (t < clock (run b (editText b ops now h c) replies) + 300000 \<longrightarrow>
        patchStatus (patchid b) t (run b (editText b ops now h c) replies)
          = Some (heap (run b (editText b ops now h c) replies) (detailsref b)))
   \<and> (clock (run b (editText b ops now h c) replies) + 300000 \<le> t \<longrightarrow>
        patchStatus (patchid b) t (run b (editText b ops now h c) replies) = None)
   \<and> (key \<noteq> patchid b \<and> c key = None \<longrightarrow>
        patchStatus key t (run b (editText b ops now h c) replies) = None)"
proof -
  let ?S = "run b (editText b ops now h c) replies"
  have m: "5 * MINUTE = 300000" by (simp add: MINUTE_def)
  have e: "cache ?S (patchid b) = Some (detailsref b, clock ?S + 300000)"
    using inv_status(6)[OF reachable_invariant, of b ops now h c replies] m by simp
  have e0: "cache (editText b ops now h c) (patchid b) = Some (detailsref b, now + 300000)"
    using inv_status(6)[OF editText_invariant, of b ops now h c] m by (simp add: editText_clock)
  have f: "cache ?S key = c key" if "key \<noteq> patchid b"
    using that by (simp add: run_foreign editText_foreign)
  have g: "t < clock ?S + 300000 \<longrightarrow> patchStatus (patchid b) t ?S = Some (heap ?S (detailsref b))"
    "clock ?S + 300000 \<le> t \<longrightarrow> patchStatus (patchid b) t ?S = None"
    using e by (simp_all add: patchStatus_def cache_get_def)
  have n: "key \<noteq> patchid b \<and> c key = None \<longrightarrow> patchStatus key t ?S = None"
    using f by (simp add: patchStatus_def cache_get_def)
  have w: "cache (snd (operationHandler x (patchid b) (detailsref b) r st)) (patchid b)
       = Some (detailsref b, clock st + 300000)"
    "cache (handlePatchResponse b err data st) (patchid b) = Some (detailsref b, clock st + 300000)"
    using operationHandler_cache[of x b r st] handlePatchResponse_cache[of b err data st] m
    by simp_all
  show ?thesis
    using m e e0 g n w editText_clock[of b ops now h c] storeReply_clock[of b st i r dt]
    by blast
qed

theorem C8_witness:
  "patchStatus (patchid example_batch) 301011 example_final
     = Some \<lparr>status = COMPLETE, success = 2, error = 1\<rparr>
   \<and> patchStatus (patchid example_batch) 301012 example_final = None
   \<and> patchStatus ''another'' 2000 example_final = None"
  using C8_status_expires_five_minutes_after_last_write[where b = example_batch and ops = example_operations and now = 1000 and h = blank_heap
        and c = empty_cache and replies = example_replies and t = 301011 and key = "''another''",
      folded example_final_def]
    C8_status_expires_five_minutes_after_last_write[where b = example_batch and ops = example_operations and now = 1000 and h = blank_heap
        and c = empty_cache and replies = example_replies and t = 301012 and key = "''another''",
      folded example_final_def]
    C8_status_expires_five_minutes_after_last_write[where b = example_batch and ops = example_operations and now = 1000 and h = blank_heap
        and c = empty_cache and replies = example_replies and t = 2000 and key = "''another''",
      folded example_final_def]
    example_final_status example_final_cache
  by (simp add: example_batch_def empty_cache_def)

text \<open>
  C9. For every batch and every sequence of store answers, at most 10 operations are in
  the store's hands, and at most 10 iterator calls are open; an operation waits in the
  queue only while 10 calls are in flight (as long as no callback raised), so the next
  queued operation starts as soon as a slot frees.
\<close>

theorem C9_at_most_ten_in_flight:
  "length (inflight (run b (editText b ops now h c) replies)) \<le> 10
   \<and> running (run b (editText b ops now h c) replies) \<le> 10
   \<and> (uncaught (run b (editText b ops now h c) replies) = []
        \<and> pending (run b (editText b ops now h c) replies) \<noteq> [] \<longrightarrow>
        length (inflight (run b (editText b ops now h c) replies)) = 10)"
  using inv_status(3,4,5)[OF reachable_invariant, of b ops now h c replies] by auto

theorem C9_witness:
  "uncaught (run example_batch (editText example_batch crowded_operations 0 blank_heap empty_cache) []) = []
   \<and> pending (run example_batch (editText example_batch crowded_operations 0 blank_heap empty_cache) []) \<noteq> []
   \<and> length (inflight (run example_batch (editText example_batch crowded_operations 0 blank_heap empty_cache) [])) = 10"
  using C9_at_most_ten_in_flight[of example_batch crowded_operations 0 blank_heap empty_cache "[]"] crowded_start
  by (auto simp: run_def)

text \<open>
  C2. The batch of the end-to-end scenario (\<open>example_operations\<close>): an add of two
  classes, a replace of the metadata, and an operation \<open>bogus\<close> on \<open>/nope\<close>. When the
  store answers the first two with a result, the record that \<open>patchStatus\<close> returns for
  the batch identifier is not \<open>{status: error, success: 2, error: 1}\<close>: the status is
  \<open>complete\<close>.
\<close>

theorem C2_counterexample:
  "patchStatus ''patch1'' 2000 example_final = Some \<lparr>status = COMPLETE, success = 2, error = 1\<rparr>
   \<and> patchStatus ''patch1'' 2000 example_final \<noteq> Some \<lparr>status = ERROR, success = 2, error = 1\<rparr>"
  using example_final_status example_final_cache
  by (simp add: patchStatus_def cache_get_def)

text \<open>
  C2, as the code has it: for that batch, whatever results the store returns for the
  first two operations, in either order of the answers and at any time before the entry
  expires, \<open>patchStatus\<close> returns \<open>{status: complete, success: 2, error: 1}\<close>.
\<close>

theorem C2_example_batch_completes:
  assumes "replies = [Reply 0 (Inr va) da, Reply 1 (Inr vb) db]
         \<or> replies = [Reply 1 (Inr vb) db, Reply 0 (Inr va) da]"
    and "t < now + da + db + 5 * MINUTE"
  shows "patchStatus (patchid b) t (run b (editText b example_operations now h c) replies)
           = Some \<lparr>status = COMPLETE, success = 2, error = 1\<rparr>"
  using assms
  by (auto simp: patchStatus_def cache_get_def example_operations_def run_defs)

theorem C2_witness:
  "(2000::nat) < 1000 + 5 + 7 + 5 * MINUTE
   \<and> patchStatus (patchid example_batch) 2000
        (run example_batch (editText example_batch example_operations 1000 blank_heap empty_cache)
           example_replies)
       = Some \<lparr>status = COMPLETE, success = 2, error = 1\<rparr>"
  using C2_example_batch_completes[where replies = example_replies and now = 1000 and t = 2000 and da = 7 and db = 5
      and va = "JObj [(''classes'', JArr [JStr ''c1'', JStr ''c2''])]"
      and vb = "JObj [(''metadata'', JObj [(''value'', JStr ''x'')])]"
      and b = example_batch and h = blank_heap and c = empty_cache]
  by (simp add: example_replies_def MINUTE_def)

text \<open>
  C5. An operation on \<open>/classes\<close> whose \<open>op\<close> is neither add nor remove, an operation
  on \<open>/metadata\<close> whose \<open>op\<close> is not replace, and an operation on any other path,
  settles inside \<open>applyPatch\<close> as a PatchError "Unsupported operation" that carries the
  operation; the error counter goes up by one, the success counter and the calls in
  flight stay as they are. In a batch, such an operation is never in the store's hands:
  it is either still queued or settled with that PatchError. Every result of the batch
  is the outcome of the operation at its own index, built from that operation and the
  store's answer to it alone.
\<close>

theorem C5_unsupported_operation_settles_as_error:
  assumes "getprop patchoperation ''path'' = Inr path"
    and "(path = JStr ''/classes'' \<and> field patchoperation ''op'' \<noteq> JStr ''add''
            \<and> field patchoperation ''op'' \<noteq> JStr ''remove'')
       \<or> (path = JStr ''/metadata'' \<and> field patchoperation ''op'' \<noteq> JStr ''replace'')
       \<or> (path \<noteq> JStr ''/classes'' \<and> path \<noteq> JStr ''/metadata'')"
  shows "fst (applyPatch b patchoperation st)
           = Next None (PatchError (invalid ''Unsupported operation'') patchoperation)
     \<and> error (heap (snd (applyPatch b patchoperation st)) (detailsref b))
           = error (heap st (detailsref b)) + 1
     \<and> success (heap (snd (applyPatch b patchoperation st)) (detailsref b))
           = success (heap st (detailsref b))
     \<and> inflight (snd (applyPatch b patchoperation st)) = inflight st
     \<and> results (snd (applyPatch b patchoperation st)) = results st
     \<and> (i < length ops \<and> ops ! i = patchoperation \<longrightarrow>
          i \<notin> fst ` set (inflight (run b (editText b ops now h c) replies))
          \<and> (results (run b (editText b ops now h c) replies) ! i
                = Some (PatchError (invalid ''Unsupported operation'') patchoperation)
              \<or> results (run b (editText b ops now h c) replies) ! i = None
                \<and> i \<in> fst ` set (pending (run b (editText b ops now h c) replies))))
     \<and> (\<forall>j out. j < length ops \<and> results (run b (editText b ops now h c) replies) ! j = Some out \<longrightarrow>
          (\<exists>r. out = settle (ops ! j) r)
          \<and> (\<forall>e out2 st'. fst (applyPatch b (ops ! j) st') = Next e out2 \<longrightarrow> out = out2))"
proof -
  let ?S = "run b (editText b ops now h c) replies"
  have inv: "invariant b ops ?S" by (rule reachable_invariant)
  have v: "verdict b patchoperation = Next None (PatchError (invalid ''Unsupported operation'') patchoperation)"
    by (rule verdict_unsupported[OF assms])
  have a: "i \<notin> fst ` set (inflight ?S)
          \<and> (results ?S ! i = Some (PatchError (invalid ''Unsupported operation'') patchoperation)
              \<or> results ?S ! i = None \<and> i \<in> fst ` set (pending ?S))"
    if "i < length ops" "ops ! i = patchoperation"
    using inv_slot(1)[OF inv that(1), of None "PatchError (invalid ''Unsupported operation'') patchoperation"]
      v that(2) by simp
  have s: "(\<exists>r. out = settle (ops ! j) r)
          \<and> (\<forall>e out2 st'. fst (applyPatch b (ops ! j) st') = Next e out2 \<longrightarrow> out = out2)"
    if "j < length ops" "results ?S ! j = Some out" for j out
    using inv_slot(3)[OF inv that] by (simp add: applyPatch_fst)
  have f: "fst (applyPatch b patchoperation st)
           = Next None (PatchError (invalid ''Unsupported operation'') patchoperation)"
    using v by (simp add: applyPatch_fst)
  have fr: "inflight (snd (applyPatch b patchoperation st)) = inflight st"
    "results (snd (applyPatch b patchoperation st)) = results st"
    by (simp_all add: applyPatch_frame)
  show ?thesis
    using f fr a s applyPatch_counts_Next(1,2)[OF v, of st] by blast
qed

theorem C5_witness:
  "getprop (JObj [(''op'', JStr ''bogus''), (''path'', JStr ''/nope'')]) ''path'' = Inr (JStr ''/nope'')
   \<and> example_operations ! 2 = JObj [(''op'', JStr ''bogus''), (''path'', JStr ''/nope'')]
   \<and> results example_final ! 2
       = Some (PatchError (invalid ''Unsupported operation'')
           (JObj [(''op'', JStr ''bogus''), (''path'', JStr ''/nope'')]))
   \<and> 2 \<notin> fst ` set (inflight example_final)"
  using C5_unsupported_operation_settles_as_error[where patchoperation = "JObj [(''op'', JStr ''bogus''), (''path'', JStr ''/nope'')]"
        and path = "JStr ''/nope''" and b = example_batch and ops = example_operations
        and now = 1000 and h = blank_heap and c = empty_cache and replies = example_replies
        and i = 2, folded example_final_def]
    example_final_idle
  by (simp add: example_operations_def)

text \<open>
  C6. The names of the events published for the example batch are not the
  \<open><aspect>:<verb>\<close> of its operations (second line): every name starts with
  \<open>text:update:\<close>, and the events of the two successful operations are named
  \<open>unknown:unknown\<close>, since the name is built from the \<open>operation\<close> property of the
  outcome, which a store result does not have. For the failed operation
  \<open>{op: 0, path: ""}\<close> the path is a string and \<open>op\<close> is there, yet the name falls back to
  \<open>unknown:unknown\<close>: the fallbacks test whether the path and \<open>op\<close> are truthy.
\<close>

theorem C6_counterexample:
  "map fst (sent example_final)
     = [''text:update:unknown:unknown'', ''text:update:unknown:unknown'', ''text:update:nope:bogus'']
   \<and> map (socketMessageNameBuilder number_to_string) example_operations
     = [Inr ''classes:add'', Inr ''metadata:replace'', Inr ''nope:bogus'']
   \<and> map fst (sent (run example_batch
        (editText example_batch [JObj [(''op'', JNum 0), (''path'', JStr [])]] 0 blank_heap empty_cache) []))
     = [''text:update:unknown:unknown'']"
  using example_final_sent falsy_operation_sent
  by (simp add: example_operations_def socketMessageNameBuilder_def field_def)

text \<open>
  C6, as the code has it: in every run of every batch, each published event belongs to
  a settled outcome of the batch, and its name is \<open>text:update:\<close> followed by
  \<open><aspect>:<verb>\<close> (\<open>aspect_of\<close>, \<open>verb_of\<close>) of the \<open>operation\<close> property of that
  outcome: for an error outcome the operation that failed, for a success outcome the
  \<open>operation\<close> property of the store's result. The events are there: once the completion
  callback has run and nothing raised, the events sent are those of the outcomes that
  have a payload, in the order of the operations.
\<close>

theorem C6_published_event_names:
  "((name, r) \<in> set (sent (run b (editText b ops now h c) replies)) \<longrightarrow>
     (\<exists>i out v. i < length ops
        \<and> results (run b (editText b ops now h c) replies) ! i = Some out
        \<and> socketResponseBuilder (textid b) out = Inr (Some r)
        \<and> verb_of (numberToString b) (operation_of out) = Inr v
        \<and> name = ''text:update:'' @ aspect_of (operation_of out) @ '':'' @ v
        \<and> ((\<exists>e. out = PatchError e (ops ! i) \<and> operation_of out = ops ! i)
           \<or> (\<exists>d. out = Result d \<and> operation_of out = field d ''operation''))))
   \<and> (called (run b (editText b ops now h c) replies)
        \<and> uncaught (run b (editText b ops now h c) replies) = [] \<longrightarrow>
        sent (run b (editText b ops now h c) replies)
          = concat (map (event_of (numberToString b) (textid b))
              (present (results (run b (editText b ops now h c) replies)))))"
proof (intro conjI impI)
  let ?S = "run b (editText b ops now h c) replies"
  have inv: "invariant b ops ?S" by (rule reachable_invariant)
  have an: "announced b ?S" by (rule reachable_announced)
  {
    assume "called ?S \<and> uncaught ?S = []"
    then have "snd (forEach (numberToString b) (textid b) (present (results ?S))) = None"
      and "sent ?S = fst (forEach (numberToString b) (textid b) (present (results ?S)))"
      using an by (simp_all add: announced_def)
    then show "sent ?S = concat (map (event_of (numberToString b) (textid b)) (present (results ?S)))"
      by (simp add: forEach_complete)
  }
  assume mem: "(name, r) \<in> set (sent ?S)"
  from mem an have "(name, r) \<in> set (fst (forEach (numberToString b) (textid b) (present (results ?S))))"
    by (cases "called ?S") (simp_all add: announced_def)
  from forEach_published[OF this] obtain out w where
    o: "out \<in> set (present (results ?S))"
    and p: "socketResponseBuilder (textid b) out = Inr (Some r)"
    and w: "socketMessageNameBuilder (numberToString b) (operation_of out) = Inr w"
    and n: "name = ''text:update:'' @ w"
    by blast
  from w obtain v where v: "verb_of (numberToString b) (operation_of out) = Inr v"
    and wv: "w = aspect_of (operation_of out) @ '':'' @ v"
    by (auto simp: socketMessageNameBuilder_words split: sum.splits)
  from inv obtain k where "tracked b ops k ?S" by (auto simp: invariant_def)
  then have len: "length (results ?S) = length ops" by (simp add: tracked_def)
  from o have "Some out \<in> set (results ?S)" by (simp add: present_member)
  then obtain i where i: "i < length ops" and ri: "results ?S ! i = Some out"
    using len by (auto simp: in_set_conv_nth)
  from inv_slot(3)[OF inv i ri] obtain rr where "out = settle (ops ! i) rr" by blast
  then have "(\<exists>e. out = PatchError e (ops ! i) \<and> operation_of out = ops ! i)
           \<or> (\<exists>d. out = Result d \<and> operation_of out = field d ''operation'')"
    by (cases rr) (simp_all add: settle_def operation_of_def)
  then show "\<exists>i out v. i < length ops
        \<and> results ?S ! i = Some out
        \<and> socketResponseBuilder (textid b) out = Inr (Some r)
        \<and> verb_of (numberToString b) (operation_of out) = Inr v
        \<and> name = ''text:update:'' @ aspect_of (operation_of out) @ '':'' @ v
        \<and> ((\<exists>e. out = PatchError e (ops ! i) \<and> operation_of out = ops ! i)
           \<or> (\<exists>d. out = Result d \<and> operation_of out = field d ''operation''))"
    using i ri p v n wv by blast
qed

theorem C6_witness:
  "(''text:update:nope:bogus'',
       \<lparr>id' = ''text1'',
          error' = Some (PatchError (invalid ''Unsupported operation'')
                     (JObj [(''op'', JStr ''bogus''), (''path'', JStr ''/nope'')])),
          value' = None, classes' = None\<rparr>) \<in> set (sent example_final)
   \<and> (\<exists>i out v. i < length example_operations
        \<and> results example_final ! i = Some out
        \<and> verb_of (numberToString example_batch) (operation_of out) = Inr v
        \<and> ''text:update:nope:bogus'' = ''text:update:'' @ aspect_of (operation_of out) @ '':'' @ v)
   \<and> called example_final \<and> uncaught example_final = []
   \<and> sent example_final
       = concat (map (event_of (numberToString example_batch) (textid example_batch))
           (present (results example_final)))"
proof -
  have m: "(''text:update:nope:bogus'',
       \<lparr>id' = ''text1'',
          error' = Some (PatchError (invalid ''Unsupported operation'')
                     (JObj [(''op'', JStr ''bogus''), (''path'', JStr ''/nope'')])),
          value' = None, classes' = None\<rparr>) \<in> set (sent example_final)"
    by (simp add: example_final_sent)
  have q: "called example_final \<and> uncaught example_final = []"
    using example_final_called example_final_idle by simp
  note t = C6_published_event_names[where b = example_batch and ops = example_operations
      and now = 1000 and h = blank_heap and c = empty_cache and replies = example_replies,
      folded example_final_def]
  from t[THEN conjunct1, rule_format, OF m] t[THEN conjunct2, rule_format, OF q]
  show ?thesis using m q by blast
qed



text \<open>
  C10. An add or remove on \<open>/classes\<close> whose value is not an array (or is absent) makes
  the handler raise a TypeError: the callback is never called, \<open>applyPatch\<close> raises and
  leaves the state as it was. In a batch, such an operation never has a result, and
  the counters count the results only, so it is counted in neither.
\<close>

theorem C10_non_array_value_raises:
  assumes "field patchoperation ''path'' = JStr ''/classes''"
    and "field patchoperation ''op'' = JStr ''add'' \<or> field patchoperation ''op'' = JStr ''remove''"
    and "\<forall>xs. field patchoperation ''value'' \<noteq> JArr xs"
  shows "patchTextClasses tenantid' textid' patchoperation = Throws TypeError
     \<and> applyPatch b patchoperation st = (Raise TypeError, st)
     \<and> (i < length ops \<and> ops ! i = patchoperation \<longrightarrow>
          results (run b (editText b ops now h c) replies) ! i = None
          \<and> i \<notin> fst ` set (inflight (run b (editText b ops now h c) replies))
          \<and> success (heap (run b (editText b ops now h c) replies) (detailsref b))
              = length (filter succeeded (results (run b (editText b ops now h c) replies)))
          \<and> error (heap (run b (editText b ops now h c) replies) (detailsref b))
              = length (filter failed (results (run b (editText b ops now h c) replies))))"
proof -
  let ?S = "run b (editText b ops now h c) replies"
  have inv: "invariant b ops ?S" by (rule reachable_invariant)
  from assms(2) have g: "getprop patchoperation ''op'' = Inr (JStr ''add'')
      \<or> getprop patchoperation ''op'' = Inr (JStr ''remove'')"
    using field_op_not_nullish by blast
  from g have p: "patchTextClasses tenantid' textid' patchoperation = Throws TypeError"
    for tenantid' textid'
    by (auto simp: patchTextClasses_def getClassesToPatch_not_array[OF assms(3)])
  have v: "verdict b patchoperation = Raise TypeError"
    using field_op_not_nullish[OF assms(1)] p by (simp add: verdict_def)
  have ap: "applyPatch b patchoperation st = (Raise TypeError, st)"
    using applyPatch_fst[of b patchoperation st] applyPatch_snd_Raise[OF v, of st] v
    by (simp add: prod_eq_iff)
  have r: "results ?S ! i = None \<and> i \<notin> fst ` set (inflight ?S)"
    if "i < length ops" "ops ! i = patchoperation"
    using inv_slot(2)[OF inv that(1), of TypeError] v that(2) by simp
  show ?thesis using p ap r inv_counts(2,3)[OF inv] by blast
qed

theorem C10_witness:
  "field (JObj [(''op'', JStr ''add''), (''path'', JStr ''/classes'')]) ''value'' = JUndefined
   \<and> patchTextClasses ''tenant'' ''text1'' (JObj [(''op'', JStr ''add''), (''path'', JStr ''/classes'')])
       = Throws TypeError
   \<and> results (run example_batch
         (editText example_batch [JObj [(''op'', JStr ''add''), (''path'', JStr ''/classes'')]]
            0 blank_heap empty_cache) []) ! 0 = None"
  using C10_non_array_value_raises[where patchoperation = "JObj [(''op'', JStr ''add''), (''path'', JStr ''/classes'')]"
        and tenantid' = "''tenant''" and textid' = "''text1''" and i = 0
        and ops = "[JObj [(''op'', JStr ''add''), (''path'', JStr ''/classes'')]]"
        and b = example_batch and now = 0 and h = blank_heap and c = empty_cache and replies = "[]"]
  by (simp add: field_def)

end
